theory Spec2Isabelle
  imports
    Complex_Main
    "HOL-Library.Char_ord"
    "HOL-Library.List_Lexorder"
    "HOL-Library.Product_Lexorder"
    "HOL-Library.AList"
begin

chapter \<open>The transit graph pipeline of halfway-db\<close>

text \<open>
  A shallow embedding of the graph-building core of the repository:
  \<^item> \<^verbatim>\<open>national_graph.py\<close>: \<^verbatim>\<open>TimeNormalizer\<close>, \<^verbatim>\<open>classify_service\<close>,
    \<^verbatim>\<open>extract_stop_events\<close>, \<^verbatim>\<open>compute_headways\<close> and the wait-time edge of
    \<^verbatim>\<open>build_national_graph\<close>;
  \<^item> \<^verbatim>\<open>update_national_network.py\<close>: \<^verbatim>\<open>merge_station_metadata\<close>,
    \<^verbatim>\<open>filter_ground_nodes\<close>, \<^verbatim>\<open>ensure_unique_station_names\<close>,
    \<^verbatim>\<open>merge_line_edges\<close> and the station part of \<^verbatim>\<open>main\<close>;
  \<^item> \<^verbatim>\<open>graph_times.py\<close>: \<^verbatim>\<open>build_graph\<close>, \<^verbatim>\<open>dijkstra\<close>, \<^verbatim>\<open>is_ground_node\<close>
    and \<^verbatim>\<open>main\<close>.

  Conventions of the embedding.
  \<^item> Python \<^verbatim>\<open>str\<close> is \<^typ>\<open>string\<close>; the characters are ASCII, so \<^verbatim>\<open>strip\<close>,
    \<^verbatim>\<open>upper\<close>, \<^verbatim>\<open>casefold\<close> and \<^verbatim>\<open>isdigit\<close> are the ASCII ones.
  \<^item> Python \<^verbatim>\<open>float\<close> values are timetable minutes (multiples of one half), ratios of
    two small counters and the literals of the source; they are modelled by exact rationals
    (\<^typ>\<open>rat\<close>), with the literal \<^verbatim>\<open>1e-6\<close> as \<open>1 / 1000000\<close>.
  \<^item> \<^verbatim>\<open>None\<close> is \<^const>\<open>None\<close>; an \<^verbatim>\<open>Optional[str]\<close> is falsy when it is
    \<^verbatim>\<open>None\<close> or empty.
  \<^item> A \<^verbatim>\<open>dict\<close> that the code iterates is an association list in insertion order with
    distinct keys; a \<^verbatim>\<open>dict\<close> that is only looked up and stored into is a map.
\<close>

section \<open>Python strings\<close>

text \<open>The ASCII characters for which \<^verbatim>\<open>str.isspace\<close> holds.\<close>

definition is_space :: "char \<Rightarrow> bool" where
  "is_space c \<longleftrightarrow>
     c \<in> set [CHR '' '', CHR 0x09, CHR 0x0A, CHR 0x0B, CHR 0x0C, CHR 0x0D,
               CHR 0x1C, CHR 0x1D, CHR 0x1E, CHR 0x1F]"

definition strip :: "string \<Rightarrow> string" where
  "strip s = rev (dropWhile is_space (rev (dropWhile is_space s)))"

definition upper_char :: "char \<Rightarrow> char" where
  "upper_char c =
     (let n = (of_char c :: nat) in if 97 \<le> n \<and> n \<le> 122 then char_of (n - 32) else c)"

definition upper :: "string \<Rightarrow> string" where
  "upper s = map upper_char s"

definition lower_char :: "char \<Rightarrow> char" where
  "lower_char c =
     (let n = (of_char c :: nat) in if 65 \<le> n \<and> n \<le> 90 then char_of (n + 32) else c)"

definition casefold :: "string \<Rightarrow> string" where
  "casefold s = map lower_char s"

definition is_digit_char :: "char \<Rightarrow> bool" where
  "is_digit_char c \<longleftrightarrow> (let n = (of_char c :: nat) in 48 \<le> n \<and> n \<le> 57)"

text \<open>\<^verbatim>\<open>str.isdigit\<close>: at least one character, and all of them digits.\<close>

definition isdigit :: "string \<Rightarrow> bool" where
  "isdigit s \<longleftrightarrow> s \<noteq> [] \<and> list_all is_digit_char s"

text \<open>\<^verbatim>\<open>int(s)\<close> on a string of digits (the only strings the code passes to it).\<close>

definition int_of_digits :: "string \<Rightarrow> int" where
  "int_of_digits s = foldl (\<lambda>acc c. acc * 10 + (int (of_char c) - 48)) 0 s"

text \<open>\<^verbatim>\<open>a or b\<close> on optional strings: the first operand when it is truthy, else the second.\<close>

definition truthy :: "string option \<Rightarrow> bool" where
  "truthy x \<longleftrightarrow> (case x of None \<Rightarrow> False | Some s \<Rightarrow> s \<noteq> [])"

definition py_or :: "string option \<Rightarrow> string option \<Rightarrow> string option" where
  "py_or a b = (if truthy a then a else b)"

text \<open>\<^verbatim>\<open>x or ""\<close> and \<^verbatim>\<open>x or s\<close> with a string default.\<close>

definition or_str :: "string option \<Rightarrow> string \<Rightarrow> string" where
  "or_str a d = (case a of None \<Rightarrow> d | Some s \<Rightarrow> if s = [] then d else s)"

section \<open>Service classification (\<^verbatim>\<open>national_graph.py\<close>)\<close>

definition MIN_RATIO_FOR_SLOW :: rat where
  "MIN_RATIO_FOR_SLOW = 7 / 10"

definition GROUND_TO_HUB_MINUTES :: int where
  "GROUND_TO_HUB_MINUTES = 2"

definition PLATFORM_TO_HUB_MINUTES :: int where
  "PLATFORM_TO_HUB_MINUTES = 2"

definition MAX_WAIT_MINUTES :: rat where
  "MAX_WAIT_MINUTES = 25"

definition MIN_TRAVEL_MINUTES :: rat where
  "MIN_TRAVEL_MINUTES = 1 / 2"

text \<open>
  The schedule segment is a JSON object; \<^verbatim>\<open>classify_service\<close> reads its key
  \<^verbatim>\<open>CIF_train_category\<close> only, which is the first argument here (\<^const>\<open>None\<close> when the
  key is missing or null). The operator code is passed and not used, as in the source.
\<close>

definition normalised_category :: "string option \<Rightarrow> string" where
  "normalised_category cat = upper (strip (or_str cat ''''))"

definition classify_service :: "string option \<Rightarrow> rat \<Rightarrow> string \<Rightarrow> string option" where
  "classify_service cif_train_category stop_ratio toc_code =
     (let category = normalised_category cif_train_category in
      if category \<in> set [''BR'', ''BS'', ''DD''] then None
      else if stop_ratio \<ge> MIN_RATIO_FOR_SLOW then Some ''slow''
      else Some ''express'')"

section \<open>Headways (\<^verbatim>\<open>national_graph.py\<close>)\<close>

text \<open>
  The body of the loop of \<^verbatim>\<open>compute_headways\<close> for one key: the headway of one list of
  departure times. \<^verbatim>\<open>min(diffs)\<close> is only reached with a non-empty list.
\<close>

definition positive_diffs :: "rat list \<Rightarrow> rat list" where
  "positive_diffs sorted_times =
     map (\<lambda>(a, b). b - a) (filter (\<lambda>(a, b). b > a) (zip sorted_times (tl sorted_times)))"

definition wrap_gap :: "rat list \<Rightarrow> rat" where
  "wrap_gap sorted_times = (hd sorted_times + 24 * 60) - last sorted_times"

definition headway_diffs :: "rat list \<Rightarrow> rat list" where
  "headway_diffs ts =
     (let sorted_times = sort ts;
          diffs = positive_diffs sorted_times;
          wrap = wrap_gap sorted_times
      in if wrap > 0 then diffs @ [wrap] else diffs)"

definition headway :: "rat list \<Rightarrow> rat" where
  "headway ts =
     (if length ts < 2 then 30
      else let diffs = headway_diffs ts
           in if diffs = [] then 30 else min_list diffs)"

type_synonym station_line = "string \<times> string"

definition compute_headways ::
  "(station_line \<times> rat list) list \<Rightarrow> (station_line \<times> rat) list" where
  "compute_headways departures = map (\<lambda>(key, ts). (key, headway ts)) departures"

text \<open>
  The wait-time edge of \<^verbatim>\<open>build_national_graph\<close>: the weight of the edge from the hub of
  a station onto one of its lines.
\<close>

definition wait_edge_time :: "rat \<Rightarrow> int" where
  "wait_edge_time hw = \<lceil>min (hw / 2) MAX_WAIT_MINUTES\<rceil>"

text \<open>
  The headway as the specification words it: the least of the consecutive gaps of the sorted
  departure times and of the wrap-around gap, zero gaps included.
\<close>

definition all_gaps :: "rat list \<Rightarrow> rat list" where
  "all_gaps ts =
     (let sorted_times = sort ts
      in map (\<lambda>(a, b). b - a) (zip sorted_times (tl sorted_times)) @ [wrap_gap sorted_times])"

definition headway_spec :: "rat list \<Rightarrow> rat" where
  "headway_spec ts = (if length ts < 2 then 30 else min_list (all_gaps ts))"

section \<open>Edge merge (\<^verbatim>\<open>update_national_network.py\<close>)\<close>

text \<open>The exceptions that the modelled code can raise.\<close>

datatype py_error = IndexError | KeyError

text \<open>An edge record of \<^verbatim>\<open>lines.jsonl\<close>: the five keys the code reads and writes.\<close>

record edge =
  from_id :: string
  from_line :: string
  to_id :: string
  to_line :: string
  time :: int

type_synonym edge_key = "string \<times> string \<times> string \<times> string"

definition key_of :: "edge \<Rightarrow> edge_key" where
  "key_of e = (from_id e, from_line e, to_id e, to_line e)"

text \<open>
  The state of the loop of \<^verbatim>\<open>merge_line_edges\<close>: the list \<^verbatim>\<open>records\<close> and the dictionary
  \<^verbatim>\<open>index\<close> (both mutated in place by the source) and the two counters. The body of the
  loop is \<open>merge_edge\<close>; \<^verbatim>\<open>records[idx]\<close> raises \<^verbatim>\<open>IndexError\<close> out of range.
\<close>

type_synonym merge_state = "edge list \<times> (edge_key \<rightharpoonup> nat) \<times> nat \<times> nat"

definition merge_edge :: "merge_state \<Rightarrow> edge \<Rightarrow> py_error + merge_state" where
  "merge_edge s e =
     (case s of (records, index, updates, inserts) \<Rightarrow>
        let key = key_of e; t = time e in
        case index key of
          Some idx \<Rightarrow>
            if idx < length records then
              (if t < time (records ! idx)
               then Inr (records[idx := (records ! idx)\<lparr>time := t\<rparr>], index, updates + 1, inserts)
               else Inr (records, index, updates, inserts))
            else Inl IndexError
        | None \<Rightarrow>
            Inr (records @ [\<lparr>from_id = from_id e, from_line = from_line e, to_id = to_id e,
                             to_line = to_line e, time = t\<rparr>],
                 index(key \<mapsto> length (records @ [e]) - 1), updates, inserts + 1))"

fun merge_loop :: "merge_state \<Rightarrow> edge list \<Rightarrow> py_error + merge_state" where
  "merge_loop s [] = Inr s"
| "merge_loop s (e # es) =
     (case merge_edge s e of Inl err \<Rightarrow> Inl err | Inr s' \<Rightarrow> merge_loop s' es)"

definition merge_line_edges ::
  "edge list \<Rightarrow> (edge_key \<rightharpoonup> nat) \<Rightarrow> edge list \<Rightarrow> py_error + merge_state" where
  "merge_line_edges records index new_edges = merge_loop (records, index, 0, 0) new_edges"

text \<open>
  \<^verbatim>\<open>load_line_records\<close>, on the lines of \<^verbatim>\<open>lines.jsonl\<close>: \<^const>\<open>None\<close> is a line that is
  blank after \<^verbatim>\<open>strip\<close>, \<^const>\<open>Some\<close> a decoded record. The index entry is the position
  of the line in the file (\<^verbatim>\<open>idx\<close> of \<^verbatim>\<open>enumerate(f)\<close>), blank lines counted.
\<close>

definition load_line_records :: "edge option list \<Rightarrow> edge list \<times> (edge_key \<rightharpoonup> nat)" where
  "load_line_records file_lines =
     fold (\<lambda>(idx, line) (records, index).
             case line of
               None \<Rightarrow> (records, index)
             | Some data \<Rightarrow> (records @ [data], index(key_of data \<mapsto> idx)))
          (enumerate 0 file_lines) ([], Map.empty)"

text \<open>
  Records and index agree when the index sends a key to the position of a record with that
  key, as the entries that \<^verbatim>\<open>merge_line_edges\<close> itself adds do.
\<close>

definition well_indexed :: "edge list \<Rightarrow> (edge_key \<rightharpoonup> nat) \<Rightarrow> bool" where
  "well_indexed records index \<longleftrightarrow>
     (\<forall>k i. index k = Some i \<longrightarrow> i < length records \<and> key_of (records ! i) = k)"

text \<open>The weight stored for a key, if the key is indexed.\<close>

definition stored_time :: "edge list \<Rightarrow> (edge_key \<rightharpoonup> nat) \<Rightarrow> edge_key \<Rightarrow> int option" where
  "stored_time records index k = map_option (\<lambda>i. time (records ! i)) (index k)"

text \<open>
  The least weight observed for a key: the weight stored before the merge, if any, and the
  weights of the merged edges with that key.
\<close>

definition observed_min :: "int option \<Rightarrow> int list \<Rightarrow> int option" where
  "observed_min w ts =
     (let observed = (case w of None \<Rightarrow> [] | Some a \<Rightarrow> [a]) @ ts
      in if observed = [] then None else Some (Min (set observed)))"

definition times_for :: "edge_key \<Rightarrow> edge list \<Rightarrow> int list" where
  "times_for k es = map time (filter (\<lambda>e. key_of e = k) es)"

text \<open>
  The same policy inside \<^verbatim>\<open>build_national_graph\<close>, on the travel times of one ingestion
  pass: \<^verbatim>\<open>existing = edge_costs.get(key)\<close>, stored when absent or strictly smaller.
\<close>

definition record_edge_cost :: "(edge_key \<rightharpoonup> rat) \<Rightarrow> edge_key \<Rightarrow> rat \<Rightarrow> (edge_key \<rightharpoonup> rat)" where
  "record_edge_cost edge_costs key travel_minutes =
     (case edge_costs key of
        None \<Rightarrow> edge_costs(key \<mapsto> travel_minutes)
      | Some existing \<Rightarrow>
          if travel_minutes < existing then edge_costs(key \<mapsto> travel_minutes) else edge_costs)"

section \<open>Time normalisation (\<^verbatim>\<open>national_graph.py\<close>)\<close>

text \<open>The two attributes of a \<^verbatim>\<open>TimeNormalizer\<close> instance, and \<^verbatim>\<open>__init__\<close>.\<close>

record time_normalizer =
  day_offset :: int
  last_value :: "rat option"

definition new_normalizer :: time_normalizer where
  "new_normalizer = \<lparr>day_offset = 0, last_value = None\<rparr>"

text \<open>
  The first half of \<^verbatim>\<open>parse\<close>, which does not touch the instance: the token is stripped,
  a trailing \<open>H\<close> marks a half minute, at least three digits must remain; the last two are
  the minutes and the ones before the hours. The result is \<^verbatim>\<open>base_minutes\<close>, or
  \<^const>\<open>None\<close> where \<^verbatim>\<open>parse\<close> returns \<^verbatim>\<open>None\<close>.
\<close>

definition base_minutes :: "string option \<Rightarrow> rat option" where
  "base_minutes raw =
     (case raw of
        None \<Rightarrow> None
      | Some r \<Rightarrow>
          if r = [] then None
          else
            let token = strip r;
                half_minute = (token \<noteq> [] \<and> last token = CHR ''H'');
                token = (if half_minute then butlast token else token)
            in if length token < 3 \<or> \<not> isdigit token then None
               else
                 let hh = int_of_digits (take (length token - 2) token);
                     mm = int_of_digits (drop (length token - 2) token)
                 in Some (of_int (hh * 60 + mm) + (if half_minute then 1 / 2 else 0)))"

text \<open>
  The second half of \<^verbatim>\<open>parse\<close>: the day offset is added, and raised by one when the
  value would fall below the last value by more than \<^verbatim>\<open>1e-6\<close>; the last value is
  replaced by a greater one. The method returns the value and leaves the instance updated.
\<close>

definition parse :: "time_normalizer \<Rightarrow> string option \<Rightarrow> rat option \<times> time_normalizer" where
  "parse self raw =
     (case base_minutes raw of
        None \<Rightarrow> (None, self)
      | Some base \<Rightarrow>
          let minutes = base + of_int (day_offset self) * 24 * 60;
              rolled = (case last_value self of
                          None \<Rightarrow> False
                        | Some lv \<Rightarrow> minutes + 1 / 1000000 < lv);
              self = (if rolled then self\<lparr>day_offset := day_offset self + 1\<rparr> else self);
              minutes = (if rolled then base + of_int (day_offset self) * 24 * 60 else minutes);
              grows = (case last_value self of None \<Rightarrow> True | Some lv \<Rightarrow> minutes > lv);
              self = (if grows then self\<lparr>last_value := Some minutes\<rparr> else self)
          in (Some minutes, self))"

text \<open>The values that one instance returns for a sequence of tokens, call after call.\<close>

fun parse_seq :: "time_normalizer \<Rightarrow> string option list \<Rightarrow> rat option list" where
  "parse_seq self [] = []"
| "parse_seq self (raw # raws) =
     (case parse self raw of (r, self') \<Rightarrow> r # parse_seq self' raws)"

text \<open>The returned values that are not \<^verbatim>\<open>None\<close>.\<close>

definition returned :: "rat option list \<Rightarrow> rat list" where
  "returned rs = concat (map (\<lambda>r. case r of None \<Rightarrow> [] | Some v \<Rightarrow> [v]) rs)"

text \<open>
  A token is within a day when it is one that \<^verbatim>\<open>parse\<close> returns \<^verbatim>\<open>None\<close> for, or its
  hours and minutes (and half minute) stay below 24 hours.
\<close>

definition within_day :: "string option \<Rightarrow> bool" where
  "within_day raw \<longleftrightarrow> (case base_minutes raw of None \<Rightarrow> True | Some b \<Rightarrow> b < 24 * 60)"

text \<open>
  What holds of an instance between calls on such tokens: the last value is a multiple of
  half a minute and lies before the end of the current day of the schedule.
\<close>

definition half_integer :: "rat \<Rightarrow> bool" where
  "half_integer x \<longleftrightarrow> (\<exists>k::int. x = of_int k / 2)"

definition normalizer_inv :: "time_normalizer \<Rightarrow> bool" where
  "normalizer_inv self \<longleftrightarrow>
     (case last_value self of
        None \<Rightarrow> True
      | Some l \<Rightarrow> half_integer l \<and> l < of_int (day_offset self + 1) * 24 * 60)"

section \<open>Stop events and the stop ratio (\<^verbatim>\<open>national_graph.py\<close>, \<^verbatim>\<open>national_loader.py\<close>)\<close>

text \<open>The dataclass \<^verbatim>\<open>StationMetadata\<close> of \<^verbatim>\<open>national_loader.py\<close>.\<close>

record StationMetadata =
  tiploc :: string
  name :: "string option"
  three_alpha :: "string option"
  atco_code :: "string option"
  naptan_code :: "string option"
  latitude :: "rat option"
  longitude :: "rat option"
  locality_name :: "string option"












section \<open>Station merge (\<^verbatim>\<open>update_national_network.py\<close>)\<close>

text \<open>
  A station record of \<^verbatim>\<open>stations.jsonl\<close>, with the keys that the code reads or writes.
  A field is \<^const>\<open>None\<close> when the key is missing or null: the code reads the keys with
  \<^verbatim>\<open>get\<close> and \<^verbatim>\<open>or\<close>, which do not tell the two apart. The fields carry the prefix
  \<open>r_\<close>, since several keys are fields of \<^verbatim>\<open>StationMetadata\<close> too.
\<close>

record station_record =
  r_station_id :: "string option"
  r_station_name :: "string option"
  r_code :: "string option"
  r_latitude :: "rat option"
  r_longitude :: "rat option"
  r_tiploc :: "string option"
  r_atco_code :: "string option"
  r_naptan_code :: "string option"
  r_locality :: "string option"

text \<open>
  The station catalogue is a \<^verbatim>\<open>dict\<close> from station identifiers to records, iterated in
  insertion order: an association list. \<^verbatim>\<open>d[k] = v\<close> is \<^const>\<open>AList.update\<close> (in place
  for a key that is present, at the end otherwise), \<^verbatim>\<open>d.get(k)\<close> is \<^const>\<open>map_of\<close>,
  \<^verbatim>\<open>d.pop(k, None)\<close> is \<^const>\<open>AList.delete\<close>.
\<close>

type_synonym station_records = "(string \<times> station_record) list"

text \<open>\<^verbatim>\<open>{"station_id": station_id}\<close>, the default of \<^verbatim>\<open>existing.get\<close>.\<close>

definition fresh_record :: "string \<Rightarrow> station_record" where
  "fresh_record station_id =
     \<lparr>r_station_id = Some station_id, r_station_name = None, r_code = None, r_latitude = None,
      r_longitude = None, r_tiploc = None, r_atco_code = None, r_naptan_code = None,
      r_locality = None\<rparr>"

text \<open>
  \<^verbatim>\<open>load_station_records\<close>, on the decoded lines of the file: a record without a truthy
  \<^verbatim>\<open>station_id\<close> is skipped, a later record replaces an earlier one with the same
  identifier.
\<close>

definition load_station_records :: "station_record list \<Rightarrow> station_records" where
  "load_station_records file_lines =
     fold (\<lambda>data records.
             case r_station_id data of
               None \<Rightarrow> records
             | Some station_id \<Rightarrow>
                 if station_id = [] then records else AList.update station_id data records)
          file_lines []"

text \<open>
  The body of the first loop of \<^verbatim>\<open>merge_station_metadata\<close>, for one item of
  \<^verbatim>\<open>national_stations\<close>.
\<close>

definition merge_station ::
  "string \<times> StationMetadata \<Rightarrow> station_records \<Rightarrow> station_records" where
  "merge_station item existing =
     (case item of (station_id, meta) \<Rightarrow>
        let record = (case map_of existing station_id of
                        None \<Rightarrow> fresh_record station_id
                      | Some r \<Rightarrow> r);
            record = record\<lparr>r_station_name :=
                       Some (or_str (py_or (name meta) (r_station_name record)) station_id)\<rparr>;
            record = record\<lparr>r_code :=
                       Some (or_str (py_or (three_alpha meta) (r_code record)) (tiploc meta))\<rparr>;
            record = record\<lparr>r_latitude := latitude meta\<rparr>;
            record = record\<lparr>r_longitude := longitude meta\<rparr>;
            record = record\<lparr>r_tiploc := Some (tiploc meta)\<rparr>;
            record = (if truthy (atco_code meta)
                      then record\<lparr>r_atco_code := atco_code meta\<rparr> else record);
            record = (if truthy (naptan_code meta)
                      then record\<lparr>r_naptan_code := naptan_code meta\<rparr> else record);
            record = (if truthy (locality_name meta)
                      then record\<lparr>r_locality := locality_name meta\<rparr> else record)
        in AList.update station_id record existing)"

text \<open>
  \<^verbatim>\<open>merge_station_metadata\<close>. Its closing loop gives the keys \<^verbatim>\<open>code\<close>,
  \<^verbatim>\<open>latitude\<close> and \<^verbatim>\<open>longitude\<close> the value \<^verbatim>\<open>None\<close> where they are missing, which is
  the identity on \<^typ>\<open>station_record\<close>.
\<close>

definition merge_station_metadata ::
  "station_records \<Rightarrow> (string \<times> StationMetadata) list \<Rightarrow> station_records" where
  "merge_station_metadata existing national_stations = fold merge_station national_stations existing"

definition startswith :: "string \<Rightarrow> string \<Rightarrow> bool" where
  "startswith s prefix \<longleftrightarrow> take (length prefix) s = prefix"

definition filter_ground_nodes :: "station_records \<Rightarrow> station_records" where
  "filter_ground_nodes records =
     (let to_remove = filter (\<lambda>station_id. startswith station_id ''HUB'') (map fst records)
      in fold AList.delete to_remove records)"

subsection \<open>Name disambiguation\<close>

text \<open>\<^verbatim>\<open>str\<close> of a counter, as the f-string formats it.\<close>

definition digit_char :: "nat \<Rightarrow> char" where
  "digit_char d = char_of (48 + d)"

fun str_nat :: "nat \<Rightarrow> string" where
  "str_nat n = (if n < 10 then [digit_char n] else str_nat (n div 10) @ [digit_char (n mod 10)])"

declare str_nat.simps [simp del]

definition numbered :: "string \<Rightarrow> nat \<Rightarrow> string" where
  "numbered new_name counter = new_name @ '' #'' @ str_nat counter"

text \<open>
  Two counters give two different numbered names, also after \<^verbatim>\<open>casefold\<close>: this is why
  the \<^verbatim>\<open>while\<close> loop below comes to an end.
\<close>

lemma str_nat_nonempty: "str_nat n \<noteq> []"
  by (subst str_nat.simps) simp

lemma digit_char_inj: "a < 10 \<Longrightarrow> b < 10 \<Longrightarrow> digit_char a = digit_char b \<Longrightarrow> a = b"
proof -
  assume a: "a < 10" and b: "b < 10" and eq: "digit_char a = digit_char b"
  have "48 + a = (of_char (digit_char a) :: nat)"
    using a by (simp add: digit_char_def)
  also have "\<dots> = of_char (digit_char b)"
    by (simp only: eq)
  also have "\<dots> = 48 + b"
    using b by (simp add: digit_char_def)
  finally show ?thesis by simp
qed

lemma str_nat_inj: "str_nat n = str_nat m \<Longrightarrow> n = m"
proof (induction n arbitrary: m rule: str_nat.induct)
  case (1 n)
  show ?case
  proof (cases "n < 10")
    case True
    note n = this
    show ?thesis
    proof (cases "m < 10")
      case True
      with n "1.prems" show ?thesis
        by (simp add: str_nat.simps [of n] str_nat.simps [of m] digit_char_inj)
    next
      case False
      with n "1.prems" str_nat_nonempty [of "m div 10"] show ?thesis
        by (simp add: str_nat.simps [of n] str_nat.simps [of m])
    qed
  next
    case False
    note n = this
    show ?thesis
    proof (cases "m < 10")
      case True
      with n "1.prems" str_nat_nonempty [of "n div 10"] show ?thesis
        by (simp add: str_nat.simps [of n] str_nat.simps [of m])
    next
      case False
      with n "1.prems" have "str_nat (n div 10) = str_nat (m div 10)"
        and "digit_char (n mod 10) = digit_char (m mod 10)"
        by (simp_all add: str_nat.simps [of n] str_nat.simps [of m])
      with "1.IH" [OF n] have "n div 10 = m div 10" "n mod 10 = m mod 10"
        by (auto intro: digit_char_inj)
      then show ?thesis by (metis div_mult_mod_eq)
    qed
  qed
qed

lemma lower_char_digit: "lower_char (digit_char d) = digit_char d" if "d < 10"
  using that by (simp add: lower_char_def digit_char_def Let_def)

lemma casefold_str_nat: "casefold (str_nat n) = str_nat n"
proof (induction n rule: str_nat.induct)
  case (1 n)
  then show ?case
    by (subst (1 2) str_nat.simps) (auto simp: casefold_def lower_char_digit)
qed

lemma casefold_numbered_inj:
  "casefold (numbered new_name a) = casefold (numbered new_name b) \<Longrightarrow> a = b"
proof -
  assume "casefold (numbered new_name a) = casefold (numbered new_name b)"
  then have "casefold (str_nat a) = casefold (str_nat b)"
    by (simp add: numbered_def casefold_def)
  then show ?thesis by (simp add: casefold_str_nat str_nat_inj)
qed

text \<open>
  The \<^verbatim>\<open>while\<close> loop of \<^verbatim>\<open>ensure_unique_station_names\<close>: the candidate is numbered until
  its case-folded form is not among the names seen in the group.
\<close>

function find_candidate :: "string \<Rightarrow> string list \<Rightarrow> string \<Rightarrow> nat \<Rightarrow> string" where
  "find_candidate new_name seen candidate counter =
     (if casefold candidate \<in> set seen
      then find_candidate new_name seen (numbered new_name counter) (counter + 1)
      else candidate)"
  by pat_completeness auto

text \<open>The names already seen that the loop can still run into, from a counter on.\<close>

definition pending :: "string \<Rightarrow> string list \<Rightarrow> nat \<Rightarrow> string set" where
  "pending new_name seen counter =
     {c \<in> set seen. \<exists>n\<ge>counter. c = casefold (numbered new_name n)}"

lemma finite_pending: "finite (pending new_name seen counter)"
  by (simp add: pending_def)

lemma pending_Suc_subset: "pending new_name seen (counter + 1) \<subseteq> pending new_name seen counter"
proof
  fix c
  assume "c \<in> pending new_name seen (counter + 1)"
  then obtain n where "c \<in> set seen" "counter + 1 \<le> n" "c = casefold (numbered new_name n)"
    by (auto simp: pending_def)
  then have "c \<in> set seen \<and> (\<exists>n\<ge>counter. c = casefold (numbered new_name n))"
    by (intro conjI exI [of _ n]) simp_all
  then show "c \<in> pending new_name seen counter"
    by (simp add: pending_def)
qed

lemma pending_Suc_less:
  assumes "casefold (numbered new_name counter) \<in> set seen"
  shows "card (pending new_name seen (counter + 1)) < card (pending new_name seen counter)"
proof -
  have "casefold (numbered new_name counter) \<in> pending new_name seen counter"
    using assms by (auto simp: pending_def)
  moreover have "casefold (numbered new_name counter) \<notin> pending new_name seen (counter + 1)"
    by (auto simp: pending_def dest: casefold_numbered_inj)
  ultimately have "pending new_name seen (counter + 1) \<subset> pending new_name seen counter"
    using pending_Suc_subset [of new_name seen counter] by blast
  then show ?thesis by (simp add: finite_pending psubset_card_mono)
qed

termination find_candidate
proof (relation "measure (\<lambda>(new_name, seen, candidate, counter).
          2 * card (pending new_name seen counter)
          + (if casefold candidate \<in> set seen then 1 else 0))")
  show "wf (measure (\<lambda>(new_name, seen, candidate, counter).
          2 * card (pending new_name seen counter)
          + (if casefold candidate \<in> set seen then 1 else 0)))"
    by simp
next
  fix new_name :: string and seen :: "string list" and candidate :: string and counter :: nat
  assume "casefold candidate \<in> set seen"
  moreover have "card (pending new_name seen (counter + 1)) \<le> card (pending new_name seen counter)"
    by (rule card_mono [OF finite_pending pending_Suc_subset])
  moreover have "card (pending new_name seen (counter + 1)) < card (pending new_name seen counter)"
    if "casefold (numbered new_name counter) \<in> set seen"
    using that by (rule pending_Suc_less)
  ultimately show "((new_name, seen, numbered new_name counter, counter + 1),
          (new_name, seen, candidate, counter))
        \<in> measure (\<lambda>(new_name, seen, candidate, counter).
          2 * card (pending new_name seen counter)
          + (if casefold candidate \<in> set seen then 1 else 0))"
    by auto
qed

declare find_candidate.simps [simp del]

text \<open>
  The first loop: every record gets a name (its own, or the identifier), and the identifiers
  are grouped by the case-folded name. The record of the item is the object stored in
  \<^verbatim>\<open>records\<close>, mutated in place.
\<close>

definition group_step ::
  "string \<times> station_record \<Rightarrow> station_records \<times> (string \<times> string list) list
     \<Rightarrow> station_records \<times> (string \<times> string list) list" where
  "group_step item s =
     (case item of (station_id, record) \<Rightarrow>
      case s of (records, name_groups) \<Rightarrow>
        let name = or_str (r_station_name record) station_id;
            records = AList.update station_id (record\<lparr>r_station_name := Some name\<rparr>) records;
            key = casefold name;
            station_ids = (case map_of name_groups key of None \<Rightarrow> [] | Some ids \<Rightarrow> ids)
        in (records, AList.update key (station_ids @ [station_id]) name_groups))"

text \<open>
  The body of the loop over one sorted group with more than one identifier: the first
  keeps its name, the others get a suffix from \<^verbatim>\<open>code\<close>, \<^verbatim>\<open>tiploc\<close> or the
  identifier; \<^verbatim>\<open>records[station_id]\<close> raises \<^verbatim>\<open>KeyError\<close> for a missing key.
\<close>

definition rename_step ::
  "nat \<times> string \<Rightarrow> station_records \<times> string list
     \<Rightarrow> py_error + station_records \<times> string list" where
  "rename_step item s =
     (case item of (idx, station_id) \<Rightarrow>
      case s of (records, seen) \<Rightarrow>
        case map_of records station_id of
          None \<Rightarrow> Inl KeyError
        | Some record \<Rightarrow>
            let base = or_str (r_station_name record) station_id;
                new_name =
                  (if idx = 0 then base
                   else base @ '' [''
                          @ or_str (py_or (r_code record) (r_tiploc record)) station_id
                          @ '']'');
                candidate = find_candidate new_name seen new_name 1
            in Inr (AList.update station_id (record\<lparr>r_station_name := Some candidate\<rparr>) records,
                    casefold candidate # seen))"

text \<open>A \<^verbatim>\<open>for\<close> loop whose body can raise: the first error ends it.\<close>

fun fold_err :: "('a \<Rightarrow> 's \<Rightarrow> py_error + 's) \<Rightarrow> 'a list \<Rightarrow> 's \<Rightarrow> py_error + 's" where
  "fold_err f [] s = Inr s"
| "fold_err f (x # xs) s = (case f x s of Inl e \<Rightarrow> Inl e | Inr s' \<Rightarrow> fold_err f xs s')"

definition rename_group :: "string list \<Rightarrow> station_records \<Rightarrow> py_error + station_records" where
  "rename_group station_ids records =
     (if length station_ids \<le> 1 then Inr records
      else case fold_err rename_step (enumerate 0 (sort station_ids)) (records, []) of
             Inl e \<Rightarrow> Inl e
           | Inr (records, seen) \<Rightarrow> Inr records)"

definition ensure_unique_station_names :: "station_records \<Rightarrow> py_error + station_records" where
  "ensure_unique_station_names records =
     (case fold group_step records (records, []) of
        (records, name_groups) \<Rightarrow> fold_err rename_group (map snd name_groups) records)"

text \<open>
  \<^verbatim>\<open>write_station_records\<close>: the records in the order of their sorted identifiers, one per
  line of the file. The identifiers are the keys of \<^verbatim>\<open>records\<close>, so each lookup succeeds.
\<close>

definition write_station_records :: "station_records \<Rightarrow> station_record list" where
  "write_station_records records =
     List.map_filter (map_of records) (sort (map fst records))"

text \<open>
  The station part of \<^verbatim>\<open>main\<close>, from the decoded lines of \<^verbatim>\<open>stations.jsonl\<close> and the
  stations of the national graph to the lines written back.
\<close>

definition main_stations ::
  "station_record list \<Rightarrow> (string \<times> StationMetadata) list \<Rightarrow> py_error + station_record list" where
  "main_stations file_lines national_stations =
     (let station_records = load_station_records file_lines;
          station_records = merge_station_metadata station_records national_stations;
          station_records = filter_ground_nodes station_records
      in case ensure_unique_station_names station_records of
           Inl e \<Rightarrow> Inl e
         | Inr station_records \<Rightarrow> Inr (write_station_records station_records))"

subsection \<open>Invariants of the station catalogue\<close>

text \<open>
  Every record is stored under its own identifier; no identifier starts with \<open>HUB\<close>; the
  identifiers of the name groups are keys of the catalogue.
\<close>

definition keyed :: "station_records \<Rightarrow> bool" where
  "keyed records \<longleftrightarrow> (\<forall>(k, r) \<in> set records. r_station_id r = Some k)"

definition ground_only :: "station_records \<Rightarrow> bool" where
  "ground_only records \<longleftrightarrow> (\<forall>(k, r) \<in> set records. \<not> startswith k ''HUB'')"

definition clean :: "station_records \<Rightarrow> bool" where
  "clean records \<longleftrightarrow> keyed records \<and> ground_only records"

definition grouped :: "station_records \<Rightarrow> (string \<times> string list) list \<Rightarrow> bool" where
  "grouped records name_groups \<longleftrightarrow>
     (\<forall>(key, station_ids) \<in> set name_groups. set station_ids \<subseteq> fst ` set records)"

section \<open>Shortest paths (\<^verbatim>\<open>graph_times.py\<close>)\<close>

text \<open>
  A node is the pair of a station identifier and a line token. A line of \<^verbatim>\<open>lines.jsonl\<close>
  as \<^verbatim>\<open>build_graph\<close> reads it carries the two nodes and the time, a number of minutes
  that is not negative (the edge weights of the data model); the fields carry the prefix
  \<open>l_\<close>, since the edge record of the merge has the same keys.
\<close>

type_synonym node = "string \<times> string"

record line_record =
  l_from_id :: string
  l_from_line :: string
  l_to_id :: string
  l_to_line :: string
  l_time :: nat

text \<open>
  The graph is a \<^verbatim>\<open>defaultdict\<close> of \<^verbatim>\<open>defaultdict\<close>s: an association list of association
  lists. \<^verbatim>\<open>graph[node]\<close> of a node without an entry is the empty dictionary; that the
  lookup also stores it changes no later lookup, so the graph is left as it is here.
\<close>

type_synonym graph = "(node \<times> (node \<times> nat) list) list"

definition neighbours :: "graph \<Rightarrow> node \<Rightarrow> (node \<times> nat) list" where
  "neighbours graph node = (case map_of graph node of None \<Rightarrow> [] | Some inner \<Rightarrow> inner)"

definition build_graph :: "line_record list \<Rightarrow> graph" where
  "build_graph file_lines =
     fold (\<lambda>data graph.
             let key1 = (l_from_id data, l_from_line data);
                 key2 = (l_to_id data, l_to_line data)
             in AList.update key1 (AList.update key2 (l_time data) (neighbours graph key1)) graph)
          file_lines []"

text \<open>
  \<^verbatim>\<open>distances\<close> is a \<^verbatim>\<open>defaultdict\<close> with the default \<^verbatim>\<open>float('inf')\<close>: a map, with
  \<^const>\<open>None\<close> for infinity. The frontier \<^verbatim>\<open>pq\<close> is a heap of pairs of a distance and
  a node: \<^verbatim>\<open>heappush\<close> adds a pair, \<^verbatim>\<open>heappop\<close> takes the least pair out, in the order
  of Python's tuples (the distance first, then the node, strings by their characters).
\<close>

type_synonym distances = "node \<rightharpoonup> nat"
type_synonym frontier = "(nat \<times> node) list"

text \<open>The body of the inner loop of \<^verbatim>\<open>dijkstra\<close>, for one item of \<^verbatim>\<open>graph[current]\<close>.\<close>

definition relax_step :: "nat \<Rightarrow> node \<times> nat \<Rightarrow> distances \<times> frontier \<Rightarrow> distances \<times> frontier" where
  "relax_step current_distance item s =
     (case item of (neighbor, weight) \<Rightarrow>
      case s of (distances, pq) \<Rightarrow>
        let distance = current_distance + weight in
        if (case distances neighbor of None \<Rightarrow> True | Some d \<Rightarrow> distance < d)
        then (distances(neighbor \<mapsto> distance), (distance, neighbor) # pq)
        else (distances, pq))"

subsection \<open>Why the loop of \<^verbatim>\<open>dijkstra\<close> ends\<close>

text \<open>
  Every relaxation gives a node of the graph its first distance or a smaller one, and a turn
  of the loop without a relaxation shortens the frontier: the number of nodes without a
  distance, the sum of the distances and the length of the frontier decrease in this order.
\<close>

definition graph_nodes :: "graph \<Rightarrow> node set" where
  "graph_nodes graph = set (concat (map (\<lambda>(node, inner). map fst inner) graph))"

definition unreached :: "graph \<Rightarrow> distances \<Rightarrow> nat" where
  "unreached graph distances = card {n \<in> graph_nodes graph. distances n = None}"

definition total_distance :: "graph \<Rightarrow> distances \<Rightarrow> nat" where
  "total_distance graph distances =
     (\<Sum>n \<in> graph_nodes graph. case distances n of None \<Rightarrow> 0 | Some d \<Rightarrow> d)"

definition improves :: "graph \<Rightarrow> distances \<Rightarrow> distances \<Rightarrow> bool" where
  "improves graph distances' distances \<longleftrightarrow>
     unreached graph distances' < unreached graph distances \<or>
     (unreached graph distances' = unreached graph distances \<and>
      total_distance graph distances' < total_distance graph distances)"

lemma finite_graph_nodes: "finite (graph_nodes graph)"
  unfolding graph_nodes_def by (rule finite_set)

lemma neighbours_nodes:
  assumes "(n, w) \<in> set (neighbours graph node)"
  shows "n \<in> graph_nodes graph"
proof (cases "map_of graph node")
  case None
  with assms show ?thesis by (simp add: neighbours_def)
next
  case (Some inner)
  then have "(node, inner) \<in> set graph" by (rule map_of_SomeD)
  then have mem: "map fst inner \<in> set (map (\<lambda>(node, inner). map fst inner) graph)"
    unfolding set_map by (rule image_eqI [where x = "(node, inner)", rotated]) simp
  from assms Some have "(n, w) \<in> set inner"
    by (simp add: neighbours_def)
  then have n: "n \<in> set (map fst inner)"
    unfolding set_map by (rule image_eqI [where x = "(n, w)", rotated]) simp
  show ?thesis
    unfolding graph_nodes_def set_concat using mem n by (rule UN_I)
qed

lemma improves_trans:
  "improves graph c b \<Longrightarrow> improves graph b a \<Longrightarrow> improves graph c a"
  unfolding improves_def by linarith

lemma improves_first:
  assumes "n \<in> graph_nodes graph" "distances n = None"
  shows "improves graph (distances(n \<mapsto> d)) distances"
proof -
  let ?U = "{m \<in> graph_nodes graph. distances m = None}"
  have "{m \<in> graph_nodes graph. (distances(n \<mapsto> d)) m = None} = ?U - {n}"
    by auto
  moreover have "n \<in> ?U" using assms by simp
  moreover have "finite ?U" using finite_graph_nodes by simp
  moreover have "card (?U - {n}) < card ?U"
    using \<open>finite ?U\<close> \<open>n \<in> ?U\<close> by (rule card_Diff1_less)
  ultimately have "unreached graph (distances(n \<mapsto> d)) < unreached graph distances"
    unfolding unreached_def by simp
  then show ?thesis by (simp add: improves_def)
qed

lemma improves_lower:
  assumes "n \<in> graph_nodes graph" "distances n = Some d0" "d < d0"
  shows "improves graph (distances(n \<mapsto> d)) distances"
proof -
  let ?V = "graph_nodes graph"
  let ?f = "\<lambda>ds m. case ds m of None \<Rightarrow> 0 | Some x \<Rightarrow> (x::nat)"
  have "{m \<in> ?V. (distances(n \<mapsto> d)) m = None} = {m \<in> ?V. distances m = None}"
    using assms(2) by auto
  then have u: "unreached graph (distances(n \<mapsto> d)) = unreached graph distances"
    by (simp add: unreached_def)
  have "sum (?f (distances(n \<mapsto> d))) ?V = ?f (distances(n \<mapsto> d)) n + sum (?f (distances(n \<mapsto> d))) (?V - {n})"
    using assms(1) finite_graph_nodes by (simp add: sum.remove)
  also have "sum (?f (distances(n \<mapsto> d))) (?V - {n}) = sum (?f distances) (?V - {n})"
    by (rule sum.cong) auto
  also have "?f (distances(n \<mapsto> d)) n + sum (?f distances) (?V - {n}) < ?f distances n + sum (?f distances) (?V - {n})"
    using assms(2,3) by simp
  also have "?f distances n + sum (?f distances) (?V - {n}) = sum (?f distances) ?V"
    using assms(1) finite_graph_nodes by (simp add: sum.remove)
  finally have "total_distance graph (distances(n \<mapsto> d)) < total_distance graph distances"
    by (simp add: total_distance_def)
  with u show ?thesis by (simp add: improves_def)
qed

lemma relax_step_cases:
  assumes "fst item \<in> graph_nodes graph"
  shows "relax_step cd item (distances, pq) = (distances, pq) \<or>
         improves graph (fst (relax_step cd item (distances, pq))) distances"
proof -
  obtain n w where item: "item = (n, w)" by (cases item)
  with assms have n: "n \<in> graph_nodes graph" by simp
  show ?thesis
  proof (cases "distances n")
    case None
    with n show ?thesis
      by (simp add: relax_step_def item Let_def improves_first)
  next
    case (Some d0)
    with n show ?thesis
      by (auto simp: relax_step_def item Let_def intro: improves_lower)
  qed
qed

lemma fold_relax_step_cases:
  assumes "fst ` set items \<subseteq> graph_nodes graph"
  shows "fold (relax_step cd) items (distances, pq) = (distances, pq) \<or>
         improves graph (fst (fold (relax_step cd) items (distances, pq))) distances"
  using assms
proof (induction items arbitrary: distances pq)
  case Nil
  then show ?case by simp
next
  case (Cons item items)
  obtain d1 pq1 where step: "relax_step cd item (distances, pq) = (d1, pq1)"
    by (cases "relax_step cd item (distances, pq)")
  from Cons.prems have "fst item \<in> graph_nodes graph" "fst ` set items \<subseteq> graph_nodes graph"
    by simp_all
  note nodes = this
  from relax_step_cases [OF nodes(1), of cd distances pq]
  have first: "(d1, pq1) = (distances, pq) \<or> improves graph d1 distances"
    unfolding step by simp
  from Cons.IH [OF nodes(2), of d1 pq1]
  have rest: "fold (relax_step cd) items (d1, pq1) = (d1, pq1) \<or>
      improves graph (fst (fold (relax_step cd) items (d1, pq1))) d1" .
  have run: "fold (relax_step cd) (item # items) (distances, pq) = fold (relax_step cd) items (d1, pq1)"
    by (simp add: step)
  from first show ?case
  proof
    assume same: "(d1, pq1) = (distances, pq)"
    then have "d1 = distances" "pq1 = pq" by simp_all
    with rest show ?thesis unfolding run by simp
  next
    assume imp: "improves graph d1 distances"
    from rest show ?thesis
    proof
      assume "fold (relax_step cd) items (d1, pq1) = (d1, pq1)"
      with imp show ?thesis unfolding run by simp
    next
      assume "improves graph (fst (fold (relax_step cd) items (d1, pq1))) d1"
      then have "improves graph (fst (fold (relax_step cd) items (d1, pq1))) distances"
        using imp by (rule improves_trans)
      then show ?thesis unfolding run by simp
    qed
  qed
qed

lemma pop_shortens: "pq \<noteq> [] \<Longrightarrow> length (remove1 (Min (set pq)) pq) < length pq"
proof -
  assume "pq \<noteq> []"
  then have "Min (set pq) \<in> set pq" by simp
  then show ?thesis using \<open>pq \<noteq> []\<close>
    by (simp add: length_remove1)
qed

lemma relax_decreases:
  assumes "pq \<noteq> []"
    and "(d1, pq1) = fold (relax_step cd) (neighbours graph cur) (distances, remove1 (Min (set pq)) pq)"
  shows "((graph, d1, pq1), (graph, distances, pq))
      \<in> measures [\<lambda>(graph, distances, pq). unreached graph distances,
                  \<lambda>(graph, distances, pq). total_distance graph distances,
                  \<lambda>(graph, distances, pq). length pq]"
proof -
  have "fst ` set (neighbours graph cur) \<subseteq> graph_nodes graph"
  proof
    fix n
    assume "n \<in> fst ` set (neighbours graph cur)"
    then obtain w where "(n, w) \<in> set (neighbours graph cur)" by force
    then show "n \<in> graph_nodes graph" by (rule neighbours_nodes)
  qed
  from fold_relax_step_cases [OF this, of cd distances "remove1 (Min (set pq)) pq"]
  have "(d1, pq1) = (distances, remove1 (Min (set pq)) pq) \<or> improves graph (fst (d1, pq1)) distances"
    unfolding assms(2) .
  then have "(d1 = distances \<and> pq1 = remove1 (Min (set pq)) pq) \<or> improves graph d1 distances"
    by simp
  with pop_shortens [OF assms(1)] show ?thesis
    by (auto simp: improves_def)
qed

subsection \<open>The loop and the function\<close>

function dijkstra_loop :: "graph \<Rightarrow> distances \<Rightarrow> frontier \<Rightarrow> distances" where
  "dijkstra_loop graph distances pq =
     (if pq = [] then distances
      else
        let top = Min (set pq);
            pq = remove1 top pq;
            current_distance = fst top;
            current = snd top
        in if (case distances current of None \<Rightarrow> False | Some d \<Rightarrow> current_distance > d)
           then dijkstra_loop graph distances pq
           else
             (case fold (relax_step current_distance) (neighbours graph current) (distances, pq) of
                (distances, pq) \<Rightarrow> dijkstra_loop graph distances pq))"
  by pat_completeness auto

termination
  apply (relation "measures [\<lambda>(graph, distances, pq). unreached graph distances,
                             \<lambda>(graph, distances, pq). total_distance graph distances,
                             \<lambda>(graph, distances, pq). length pq]")
  subgoal by simp
  subgoal by (simp add: pop_shortens)
  subgoal for graph distances pq x xa xb xc xd y
    using relax_decreases [of pq xd y xb graph xc distances] by simp
  done

declare dijkstra_loop.simps [simp del]

definition dijkstra :: "graph \<Rightarrow> node \<Rightarrow> distances" where
  "dijkstra graph start = dijkstra_loop graph [start \<mapsto> 0] [(0, start)]"

definition is_ground_node :: "node \<Rightarrow> bool" where
  "is_ground_node node \<longleftrightarrow> snd node = ''GROUND''"

text \<open>
  \<^verbatim>\<open>main\<close> collects the nodes in a \<^verbatim>\<open>set\<close>, whose order of iteration Python leaves
  open; here they come in the order of their first occurrence in the graph.
\<close>

definition all_nodes :: "graph \<Rightarrow> node list" where
  "all_nodes graph = remdups (concat (map (\<lambda>(node, inner). node # map fst inner) graph))"

text \<open>
  A record of \<^verbatim>\<open>shortest_paths.jsonl\<close>; the key \<^verbatim>\<open>time\<close> is the field \<open>path_time\<close>.
\<close>

record path_record =
  from_station :: string
  to_station :: string
  path_time :: nat

text \<open>
  The body of the inner loop of \<^verbatim>\<open>main\<close> for one \<^verbatim>\<open>end\<close> node, and the body of the outer
  loop for one \<^verbatim>\<open>start\<close> node: the records written for them.
\<close>

definition emit :: "node \<Rightarrow> distances \<Rightarrow> node \<Rightarrow> path_record list" where
  "emit start distances end_node =
     (case distances end_node of
        None \<Rightarrow> []
      | Some d \<Rightarrow>
          if start \<noteq> end_node \<and> is_ground_node end_node
          then [\<lparr>from_station = fst start, to_station = fst end_node, path_time = d\<rparr>]
          else [])"

definition paths_from :: "graph \<Rightarrow> node list \<Rightarrow> node \<Rightarrow> path_record list" where
  "paths_from graph nodes start =
     (if is_ground_node start
      then let distances = dijkstra graph start
           in concat (map (emit start distances) nodes)
      else [])"

definition main_shortest_paths :: "line_record list \<Rightarrow> path_record list" where
  "main_shortest_paths file_lines =
     (let graph = build_graph file_lines;
          nodes = all_nodes graph
      in concat (map (paths_from graph nodes) nodes))"

section \<open>Properties of the service classification\<close>

lemma normalised_category_BR: "normalised_category (Some ''BR'') = ''BR''"
  by (simp add: normalised_category_def or_str_def strip_def is_space_def upper_def upper_char_def)

text \<open>
  C6. A schedule of category \<open>BR\<close> is rejected whatever its stop ratio is; a schedule whose
  category is not one of the rejected ones is \<open>slow\<close> at a stop ratio of exactly 0.70 and
  \<open>express\<close> at 0.69.
\<close>

theorem classify_service_threshold:
  "classify_service (Some ''BR'') r toc = None \<and>
   (normalised_category cat \<notin> {''BR'', ''BS'', ''DD''} \<longrightarrow>
      classify_service cat (70 / 100) toc = Some ''slow'' \<and>
      classify_service cat (69 / 100) toc = Some ''express'')"
  by (simp add: classify_service_def normalised_category_BR MIN_RATIO_FOR_SLOW_def Let_def)

theorem classify_service_threshold_witness:
  "classify_service (Some ''BR'') 1 ''gw'' = None \<and>
   normalised_category (Some '' xx '') \<notin> {''BR'', ''BS'', ''DD''} \<and>
   classify_service (Some '' xx '') (70 / 100) ''gw'' = Some ''slow'' \<and>
   classify_service (Some '' xx '') (69 / 100) ''gw'' = Some ''express''"
proof -
  have cat: "normalised_category (Some '' xx '') = ''XX''"
    by code_simp
  have notin: "normalised_category (Some '' xx '') \<notin> {''BR'', ''BS'', ''DD''}"
    by (simp add: cat)
  from classify_service_threshold [of 1 "''gw''" "Some '' xx ''"] notin
  show ?thesis by blast
qed

section \<open>Properties of the headways\<close>

lemma positive_diffs_pos: "d \<in> set (positive_diffs st) \<Longrightarrow> 0 < d"
  by (auto simp: positive_diffs_def)

lemma set_positive_diffs:
  "set (positive_diffs st) = {g \<in> set (map (\<lambda>(a, b). b - a) (zip st (tl st))). 0 < g}"
  by (force simp: positive_diffs_def)

lemma headway_diffs_pos: "d \<in> set (headway_diffs ts) \<Longrightarrow> 0 < d"
  by (auto simp: headway_diffs_def Let_def dest: positive_diffs_pos split: if_splits)

lemma set_headway_diffs: "set (headway_diffs ts) = {g \<in> set (all_gaps ts). 0 < g}"
  by (auto simp: headway_diffs_def all_gaps_def Let_def set_positive_diffs)

lemma last_le_hd_if_no_rise:
  "xs \<noteq> [] \<Longrightarrow> \<forall>(a, b) \<in> set (zip xs (tl xs)). b \<le> a \<Longrightarrow> last xs \<le> (hd xs :: rat)"
proof (induction xs rule: induct_list012)
  case 1
  then show ?case by simp
next
  case (2 x)
  then show ?case by simp
next
  case (3 x y zs)
  then show ?case by fastforce
qed

lemma headway_diffs_nonempty:
  assumes "2 \<le> length ts"
  shows "headway_diffs ts \<noteq> []"
proof (cases "0 < wrap_gap (sort ts)")
  case True
  then show ?thesis by (simp add: headway_diffs_def Let_def)
next
  case False
  have ne: "sort ts \<noteq> []" using assms by (metis length_sort list.size(3) not_numeral_le_zero)
  from False have "hd (sort ts) < last (sort ts)" by (simp add: wrap_gap_def)
  with last_le_hd_if_no_rise [OF ne] obtain a b
    where "(a, b) \<in> set (zip (sort ts) (tl (sort ts)))" "a < b"
    by fastforce
  then have "b - a \<in> set (positive_diffs (sort ts))"
    by (force simp: positive_diffs_def)
  then show ?thesis by (auto simp: headway_diffs_def Let_def)
qed

lemma headway_pos: "0 < headway ts"
proof -
  have "min_list (headway_diffs ts) \<in> set (headway_diffs ts)" if "headway_diffs ts \<noteq> []"
    using that by (simp add: min_list_Min)
  then show ?thesis
    by (auto simp: headway_def Let_def dest: headway_diffs_pos)
qed

lemma headway_min_positive_gap:
  "2 \<le> length ts \<Longrightarrow> headway ts = Min {g \<in> set (all_gaps ts). 0 < g}"
  using headway_diffs_nonempty [of ts]
  by (simp add: headway_def Let_def min_list_Min set_headway_diffs)

lemma headway_identical:
  assumes "2 \<le> length ts" "\<forall>t \<in> set ts. t = c"
  shows "headway ts = 1440"
proof -
  have ts: "ts = replicate (length ts) c"
    using assms(2) by (simp add: replicate_length_same)
  have srt: "sort ts = ts"
    by (subst ts, subst (2) ts) (simp add: sorted_sort_id)
  have "a = c \<and> b = c" if "(a, b) \<in> set (zip ts (tl ts))" for a b
  proof -
    from that have "a \<in> set ts" "b \<in> set (tl ts)"
      by (auto dest: set_zip_leftD set_zip_rightD)
    moreover from \<open>b \<in> set (tl ts)\<close> have "b \<in> set ts"
      by (cases ts) auto
    ultimately show ?thesis using assms(2) by blast
  qed
  then have "positive_diffs ts = []"
    by (auto simp: positive_diffs_def filter_empty_conv)
  moreover have "wrap_gap ts = 1440"
  proof -
    from assms(1) have "ts \<noteq> []" by auto
    then have "hd ts = c" "last ts = c" using assms(2) by simp_all
    then show ?thesis by (simp add: wrap_gap_def)
  qed
  ultimately show ?thesis
    using assms(1) by (simp add: headway_def headway_diffs_def srt Let_def)
qed

lemma wait_edge_time_pos: "0 < h \<Longrightarrow> 0 < wait_edge_time h"
  by (simp add: wait_edge_time_def MAX_WAIT_MINUTES_def)

lemma map_of_compute_headways:
  "map_of (compute_headways departures) key = map_option headway (map_of departures key)"
  by (induction departures) (auto simp: compute_headways_def)


lemma headway_example: "headway [100, 130, 160] = 30"
  by (simp add: headway_def headway_diffs_def positive_diffs_def wrap_gap_def Let_def)

lemma headway_duplicate_example: "headway [100, 100, 130] = 30"
  by (simp add: headway_def headway_diffs_def positive_diffs_def wrap_gap_def Let_def)

lemma headway_spec_duplicate_example: "headway_spec [100, 100, 130] = 0"
  by (simp add: headway_spec_def all_gaps_def wrap_gap_def Let_def)

text \<open>
  C7, as stated: the headway of a key with two or more departures is the least of all
  consecutive gaps and the wrap-around gap. It fails when a departure time is recorded twice:
  the zero gap is the least gap, and \<^verbatim>\<open>compute_headways\<close> leaves it out.
\<close>

theorem compute_headways_min_gap_counterexample:
  "map_of (compute_headways [((''910GABC'', ''gw-slow''), [100, 100, 130])])
       (''910GABC'', ''gw-slow'')
     \<noteq> Some (headway_spec [100, 100, 130])"
  by (simp add: compute_headways_def headway_duplicate_example headway_spec_duplicate_example)

text \<open>
  C7, amended: a key with fewer than two departures gets 30 minutes; a key with two or more
  gets the least of the strictly positive gaps among the consecutive gaps of the sorted
  departure times and the wrap-around gap; the departures 100, 130, 160 give 30.
\<close>

theorem compute_headways_min_positive_gap:
  assumes "map_of departures key = Some ts"
  shows "map_of (compute_headways departures) key =
           Some (if length ts < 2 then 30 else Min {g \<in> set (all_gaps ts). 0 < g}) \<and>
         map_of (compute_headways [(key, [100, 130, 160])]) key = Some 30"
proof -
  have "headway ts = (if length ts < 2 then 30 else Min {g \<in> set (all_gaps ts). 0 < g})"
    using headway_min_positive_gap [of ts] by (simp add: headway_def)
  with assms show ?thesis
    by (simp add: map_of_compute_headways headway_example)
qed

theorem compute_headways_min_positive_gap_witness:
  "map_of [((''910GABC'', ''gw-slow''), [100, 100, 130])] (''910GABC'', ''gw-slow'')
     = Some [100, 100, 130] \<and>
   map_of (compute_headways [((''910GABC'', ''gw-slow''), [100, 100, 130])])
       (''910GABC'', ''gw-slow'') = Some 30"
proof -
  have h: "map_of [((''910GABC'', ''gw-slow''), [100, 100, 130 :: rat])]
      (''910GABC'', ''gw-slow'') = Some [100, 100, 130]"
    by simp
  have "{g \<in> set (all_gaps [100, 100, 130]). 0 < g} = {30, 1410}"
    by (auto simp: all_gaps_def wrap_gap_def)
  then have m: "Min {g \<in> set (all_gaps [100, 100, 130]). 0 < g} = 30"
    by simp
  from compute_headways_min_positive_gap [OF h] m h show ?thesis
    by simp
qed

text \<open>
  C10. Every headway that \<^verbatim>\<open>compute_headways\<close> returns is strictly positive, and so
  is the weight of the wait-time edge derived from it; two or more identical departure times
  give the full day of 1440 minutes.
\<close>

theorem compute_headways_positive:
  "(\<forall>(key, h) \<in> set (compute_headways departures). 0 < h \<and> 0 < wait_edge_time h) \<and>
   (2 \<le> length ts \<and> (\<forall>t \<in> set ts. t = c) \<longrightarrow> headway ts = 1440)"
  by (auto simp: compute_headways_def headway_pos wait_edge_time_pos headway_identical)

theorem compute_headways_positive_witness:
  "compute_headways [((''910GABC'', ''gw-slow''), [615, 615]), ((''910GXYZ'', ''gw-slow''), [])]
     = [((''910GABC'', ''gw-slow''), 1440), ((''910GXYZ'', ''gw-slow''), 30)] \<and>
   0 < wait_edge_time 1440 \<and> 0 < wait_edge_time 30 \<and>
   2 \<le> length [615, 615 :: rat] \<and> set [615, 615 :: rat] = {615} \<and>
   headway [615, 615] = 1440"
proof -
  let ?d = "[((''910GABC'', ''gw-slow''), [615, 615 :: rat]), ((''910GXYZ'', ''gw-slow''), [])]"
  have c: "compute_headways ?d
      = [((''910GABC'', ''gw-slow''), 1440), ((''910GXYZ'', ''gw-slow''), 30)]"
    by (simp add: compute_headways_def headway_def headway_diffs_def positive_diffs_def
        wrap_gap_def Let_def)
  from compute_headways_positive [of ?d "[615, 615]" 615]
  show ?thesis unfolding c by simp
qed

section \<open>Properties of the edge merge\<close>

lemma observed_min_Nil [simp]: "observed_min w [] = w"
  by (cases w) (simp_all add: observed_min_def)

lemma observed_min_single:
  "observed_min w [t] = Some (case w of None \<Rightarrow> t | Some a \<Rightarrow> min a t)"
  by (cases w) (simp_all add: observed_min_def)

lemma observed_min_Cons: "observed_min w (t # ts) = observed_min (observed_min w [t]) ts"
proof (cases "ts = []")
  case True
  then show ?thesis by simp
next
  case False
  then have "Min (insert a (insert t (set ts))) = Min (insert (min a t) (set ts))" for a
    by (simp add: min.assoc)
  with False show ?thesis
    by (cases w) (simp_all add: observed_min_def)
qed

lemma key_of_time_update [simp]: "key_of (e\<lparr>time := t\<rparr>) = key_of e"
  by (simp add: key_of_def)

lemma well_indexedD:
  "well_indexed records index \<Longrightarrow> index k = Some i \<Longrightarrow>
     i < length records \<and> key_of (records ! i) = k"
  unfolding well_indexed_def by blast

lemma well_indexedI:
  "(\<And>k i. index k = Some i \<Longrightarrow> i < length records \<and> key_of (records ! i) = k)
     \<Longrightarrow> well_indexed records index"
  unfolding well_indexed_def by blast

lemma merge_edge_present:
  assumes "index (key_of e) = Some i" "i < length records"
  shows "merge_edge (records, index, u, n) e =
     Inr (if time e < time (records ! i)
          then (records[i := (records ! i)\<lparr>time := time e\<rparr>], index, u + 1, n)
          else (records, index, u, n))"
  using assms by (simp add: merge_edge_def)

lemma edge_eta: "\<lparr>from_id = from_id e, from_line = from_line e, to_id = to_id e,
                             to_line = to_line e, time = time e\<rparr> = (e :: edge)"
  by simp

lemma merge_edge_absent:
  assumes "index (key_of e) = None"
  shows "merge_edge (records, index, u, n) e =
     Inr (records @ [e], index(key_of e \<mapsto> length records), u, n + 1)"
  using assms by (simp add: merge_edge_def)

lemma merge_edge_step:
  assumes "well_indexed records index"
  shows "\<exists>records' index' u' n'.
      merge_edge (records, index, u, n) e = Inr (records', index', u', n') \<and>
      well_indexed records' index' \<and>
      (\<forall>k. stored_time records' index' k =
            (if k = key_of e then observed_min (stored_time records index k) [time e]
             else stored_time records index k))"
proof (cases "index (key_of e)")
  case None
  have wi: "well_indexed (records @ [e]) (index(key_of e \<mapsto> length records))"
  proof (rule well_indexedI)
    fix k j
    assume kj: "(index(key_of e \<mapsto> length records)) k = Some j"
    show "j < length (records @ [e]) \<and> key_of ((records @ [e]) ! j) = k"
    proof (cases "k = key_of e")
      case True
      with kj show ?thesis by auto
    next
      case False
      with kj have "index k = Some j" by simp
      with assms have "j < length records" "key_of (records ! j) = k"
        by (blast dest: well_indexedD)+
      then show ?thesis by (simp add: nth_append)
    qed
  qed
  have st: "stored_time (records @ [e]) (index(key_of e \<mapsto> length records)) k =
            (if k = key_of e then observed_min (stored_time records index k) [time e]
             else stored_time records index k)" for k
  proof (cases "index k")
    case None
    then show ?thesis using \<open>index (key_of e) = None\<close>
      by (auto simp: stored_time_def observed_min_single)
  next
    case (Some j)
    with assms have "j < length records" by (blast dest: well_indexedD)
    with Some show ?thesis using \<open>index (key_of e) = None\<close>
      by (auto simp: stored_time_def observed_min_single nth_append)
  qed
  have "merge_edge (records, index, u, n) e =
      Inr (records @ [e], index(key_of e \<mapsto> length records), u, n + 1)"
    using None by (rule merge_edge_absent)
  with wi st show ?thesis by blast
next
  case (Some i)
  with assms have i: "i < length records" "key_of (records ! i) = key_of e"
    by (blast dest: well_indexedD)+
  show ?thesis
  proof (cases "time e < time (records ! i)")
    case True
    let ?r = "records[i := (records ! i)\<lparr>time := time e\<rparr>]"
    have wi: "well_indexed ?r index"
    proof (rule well_indexedI)
      fix k j
      assume "index k = Some j"
      with assms have "j < length records" "key_of (records ! j) = k"
        by (blast dest: well_indexedD)+
      then show "j < length ?r \<and> key_of (?r ! j) = k"
        by (cases "j = i") (auto simp: nth_list_update)
    qed
    have st: "stored_time ?r index k =
            (if k = key_of e then observed_min (stored_time records index k) [time e]
             else stored_time records index k)" for k
    proof (cases "index k")
      case None
      then show ?thesis using Some by (auto simp: stored_time_def)
    next
      case (Some j)
      with assms have j: "j < length records" "key_of (records ! j) = k"
        by (blast dest: well_indexedD)+
      show ?thesis
        using Some \<open>index (key_of e) = Some i\<close> i j True
        by (auto simp: stored_time_def observed_min_single nth_list_update)
    qed
    have "merge_edge (records, index, u, n) e = Inr (?r, index, u + 1, n)"
      using merge_edge_present [of index e i records u n] Some i(1) True by simp
    with wi st show ?thesis by blast
  next
    case False
    have st: "stored_time records index k =
            (if k = key_of e then observed_min (stored_time records index k) [time e]
             else stored_time records index k)" for k
      using Some False by (auto simp: stored_time_def observed_min_single)
    have "merge_edge (records, index, u, n) e = Inr (records, index, u, n)"
      using merge_edge_present [of index e i records u n] Some i(1) False by simp
    with assms st show ?thesis by blast
  qed
qed


lemma merge_loop_min:
  assumes "well_indexed records index"
  shows "\<exists>records' index' u' n'.
      merge_loop (records, index, u, n) es = Inr (records', index', u', n') \<and>
      well_indexed records' index' \<and>
      (\<forall>k. stored_time records' index' k =
            observed_min (stored_time records index k) (times_for k es))"
  using assms
proof (induction es arbitrary: records index u n)
  case Nil
  then show ?case by (simp add: times_for_def)
next
  case (Cons e es)
  from merge_edge_step [OF Cons.prems, of u n e] obtain r1 i1 u1 n1 where
    step: "merge_edge (records, index, u, n) e = Inr (r1, i1, u1, n1)"
    and wi: "well_indexed r1 i1"
    and st: "\<And>k. stored_time r1 i1 k =
            (if k = key_of e then observed_min (stored_time records index k) [time e]
             else stored_time records index k)"
    by blast
  from Cons.IH [OF wi, of u1 n1] obtain r2 i2 u2 n2 where
    rest: "merge_loop (r1, i1, u1, n1) es = Inr (r2, i2, u2, n2)"
    and wi2: "well_indexed r2 i2"
    and st2: "\<And>k. stored_time r2 i2 k = observed_min (stored_time r1 i1 k) (times_for k es)"
    by blast
  have "stored_time r2 i2 k = observed_min (stored_time records index k) (times_for k (e # es))" for k
  proof (cases "k = key_of e")
    case True
    then have tf: "times_for k (e # es) = time e # times_for k es"
      by (simp add: times_for_def)
    have a: "stored_time r1 i1 k = observed_min (stored_time records index k) [time e]"
      using st [of k] True by simp
    show ?thesis
      unfolding st2 a tf by (rule observed_min_Cons [symmetric])
  next
    case False
    then have "times_for k (e # es) = times_for k es"
      by (simp add: times_for_def)
    then show ?thesis
      using st [of k] st2 [of k] False by simp
  qed
  with step rest wi2 show ?case by auto
qed


lemma observed_min_le:
  assumes "t \<in> set ts"
  shows "\<exists>m. observed_min w ts = Some m \<and> m \<le> t"
proof -
  define observed where "observed = (case w of None \<Rightarrow> [] | Some a \<Rightarrow> [a]) @ ts"
  have "t \<in> set observed" "observed \<noteq> []"
    using assms by (auto simp: observed_def)
  moreover have "observed_min w ts = Some (Min (set observed))"
    using \<open>observed \<noteq> []\<close> by (simp add: observed_min_def observed_def)
  ultimately show ?thesis by simp
qed

lemma observed_min_le_stored:
  "\<exists>m. observed_min (Some w) ts = Some m \<and> m \<le> w"
  by (simp add: observed_min_def)

lemma merge_loop_noop:
  assumes "well_indexed records index"
    and "\<forall>e \<in> set es. \<exists>w. stored_time records index (key_of e) = Some w \<and> w \<le> time e"
  shows "merge_loop (records, index, u, n) es = Inr (records, index, u, n)"
  using assms(2)
proof (induction es)
  case Nil
  then show ?case by simp
next
  case (Cons e es)
  then obtain w where w: "stored_time records index (key_of e) = Some w" "w \<le> time e"
    by auto
  then obtain i where i: "index (key_of e) = Some i" "w = time (records ! i)"
    by (auto simp: stored_time_def)
  with assms(1) have "i < length records" by (blast dest: well_indexedD)
  with i w have "merge_edge (records, index, u, n) e = Inr (records, index, u, n)"
    using merge_edge_present [of index e i records u n] by simp
  with Cons show ?case by simp
qed

lemma merge_line_edges_idempotent:
  assumes "well_indexed records index"
    and "merge_loop (records, index, u, n) es = Inr (records', index', u', n')"
  shows "merge_loop (records', index', u'', n'') es = Inr (records', index', u'', n'')"
proof -
  from merge_loop_min [OF assms(1), of u n es] assms(2)
  have wi: "well_indexed records' index'"
    and st: "\<And>k. stored_time records' index' k =
            observed_min (stored_time records index k) (times_for k es)"
    by auto
  have "\<exists>w. stored_time records' index' (key_of e) = Some w \<and> w \<le> time e"
    if "e \<in> set es" for e
  proof -
    from that have "time e \<in> set (times_for (key_of e) es)"
      by (auto simp: times_for_def)
    from observed_min_le [OF this] show ?thesis by (simp add: st)
  qed
  with wi show ?thesis by (intro merge_loop_noop) auto
qed


lemma record_edge_cost_min:
  "record_edge_cost edge_costs key t key =
     Some (case edge_costs key of None \<Rightarrow> t | Some w \<Rightarrow> min w t)"
  by (auto simp: record_edge_cost_def split: option.splits)

lemma merge_line_edges_single_present:
  assumes "well_indexed records index" "index (key_of e) = Some i"
  shows "merge_line_edges records index [e] =
     Inr (if time e < time (records ! i)
          then (records[i := (records ! i)\<lparr>time := time e\<rparr>], index, 1, 0)
          else (records, index, 0, 0))"
proof -
  from assms have "i < length records" by (blast dest: well_indexedD)
  with merge_edge_present [of index e i records 0 0] assms(2) show ?thesis
    by (simp add: merge_line_edges_def)
qed

lemma merge_line_edges_single_absent:
  assumes "index (key_of e) = None"
  shows "merge_line_edges records index [e] =
     Inr (records @ [e], index(key_of e \<mapsto> length records), 0, 1)"
  using merge_edge_absent [of index e records 0 0] assms
  by (simp add: merge_line_edges_def)

lemma merge_line_edges_then_lower:
  "merge_line_edges [] Map.empty [e\<lparr>time := 10\<rparr>, e\<lparr>time := 7\<rparr>] =
     Inr ([e\<lparr>time := 7\<rparr>], [key_of e \<mapsto> 0], 1, 1)"
  by (simp add: merge_line_edges_def merge_edge_def)

lemma merge_line_edges_then_higher:
  "merge_line_edges [] Map.empty [e\<lparr>time := 10\<rparr>, e\<lparr>time := 12\<rparr>] =
     Inr ([e\<lparr>time := 10\<rparr>], [key_of e \<mapsto> 0], 0, 1)"
  by (simp add: merge_line_edges_def merge_edge_def)

text \<open>
  What \<^verbatim>\<open>merge_line_edges\<close> does for records and an index that agree: it returns without
  an error; afterwards the weight stored for every key is the least of the weight stored
  before and the weights merged for that key, so it never rises; merging the same edges once
  more changes nothing. For one edge: a key already present has its weight replaced only by
  a strictly smaller one, an absent key is inserted. Merging 10 then 7 yields 7, merging 10
  then 12 leaves 10. The edge costs of one ingestion pass keep the least value the same way.
\<close>

theorem merge_line_edges_keeps_minimum:
  assumes "well_indexed records index"
  shows "(\<exists>records' index' updates inserts.
            merge_line_edges records index new_edges = Inr (records', index', updates, inserts) \<and>
            well_indexed records' index' \<and>
            (\<forall>k. stored_time records' index' k =
                   observed_min (stored_time records index k) (times_for k new_edges)) \<and>
            (\<forall>k w. stored_time records index k = Some w \<longrightarrow>
                   (\<exists>w'. stored_time records' index' k = Some w' \<and> w' \<le> w)) \<and>
            merge_line_edges records' index' new_edges = Inr (records', index', 0, 0)) \<and>
         (\<forall>i. index (key_of e) = Some i \<longrightarrow>
            merge_line_edges records index [e] =
              Inr (if time e < time (records ! i)
                   then (records[i := (records ! i)\<lparr>time := time e\<rparr>], index, 1, 0)
                   else (records, index, 0, 0))) \<and>
         (index (key_of e) = None \<longrightarrow>
            merge_line_edges records index [e] =
              Inr (records @ [e], index(key_of e \<mapsto> length records), 0, 1)) \<and>
         merge_line_edges [] Map.empty [e\<lparr>time := 10\<rparr>, e\<lparr>time := 7\<rparr>] =
           Inr ([e\<lparr>time := 7\<rparr>], [key_of e \<mapsto> 0], 1, 1) \<and>
         merge_line_edges [] Map.empty [e\<lparr>time := 10\<rparr>, e\<lparr>time := 12\<rparr>] =
           Inr ([e\<lparr>time := 10\<rparr>], [key_of e \<mapsto> 0], 0, 1) \<and>
         record_edge_cost edge_costs key t key =
           Some (case edge_costs key of None \<Rightarrow> t | Some w \<Rightarrow> min w t)"
proof -
  from merge_loop_min [OF assms, of 0 0 new_edges] obtain r' i' u' n' where
    run: "merge_loop (records, index, 0, 0) new_edges = Inr (r', i', u', n')"
    and wi: "well_indexed r' i'"
    and st: "\<And>k. stored_time r' i' k =
               observed_min (stored_time records index k) (times_for k new_edges)"
    by blast
  have mono: "\<exists>w'. stored_time r' i' k = Some w' \<and> w' \<le> w"
    if "stored_time records index k = Some w" for k w
    using observed_min_le_stored [of w "times_for k new_edges"] that by (simp add: st)
  have idem: "merge_loop (r', i', 0, 0) new_edges = Inr (r', i', 0, 0)"
    using assms run by (rule merge_line_edges_idempotent)
  have first: "\<exists>records' index' updates inserts.
            merge_line_edges records index new_edges = Inr (records', index', updates, inserts) \<and>
            well_indexed records' index' \<and>
            (\<forall>k. stored_time records' index' k =
                   observed_min (stored_time records index k) (times_for k new_edges)) \<and>
            (\<forall>k w. stored_time records index k = Some w \<longrightarrow>
                   (\<exists>w'. stored_time records' index' k = Some w' \<and> w' \<le> w)) \<and>
            merge_line_edges records' index' new_edges = Inr (records', index', 0, 0)"
    unfolding merge_line_edges_def using run wi st mono idem by blast
  show ?thesis
    using first merge_line_edges_single_present [OF assms, of e]
      merge_line_edges_single_absent [of index e records]
      merge_line_edges_then_lower [of e] merge_line_edges_then_higher [of e]
      record_edge_cost_min [of edge_costs key t]
    by blast
qed

theorem merge_line_edges_keeps_minimum_witness:
  "well_indexed
     [\<lparr>from_id = ''910GA'', from_line = ''gw-slow'', to_id = ''910GB'', to_line = ''gw-slow'',
        time = 10\<rparr>]
     [(''910GA'', ''gw-slow'', ''910GB'', ''gw-slow'') \<mapsto> 0] \<and>
   merge_line_edges
     [\<lparr>from_id = ''910GA'', from_line = ''gw-slow'', to_id = ''910GB'', to_line = ''gw-slow'',
        time = 10\<rparr>]
     [(''910GA'', ''gw-slow'', ''910GB'', ''gw-slow'') \<mapsto> 0]
     [\<lparr>from_id = ''910GA'', from_line = ''gw-slow'', to_id = ''910GB'', to_line = ''gw-slow'',
        time = 7\<rparr>,
      \<lparr>from_id = ''910GA'', from_line = ''gw-slow'', to_id = ''910GB'', to_line = ''gw-slow'',
        time = 12\<rparr>]
   = Inr ([\<lparr>from_id = ''910GA'', from_line = ''gw-slow'', to_id = ''910GB'',
             to_line = ''gw-slow'', time = 7\<rparr>],
          [(''910GA'', ''gw-slow'', ''910GB'', ''gw-slow'') \<mapsto> 0], 1, 0) \<and>
   stored_time
     [\<lparr>from_id = ''910GA'', from_line = ''gw-slow'', to_id = ''910GB'', to_line = ''gw-slow'',
        time = 7\<rparr>]
     [(''910GA'', ''gw-slow'', ''910GB'', ''gw-slow'') \<mapsto> 0]
     (''910GA'', ''gw-slow'', ''910GB'', ''gw-slow'') = Some 7"
proof -
  let ?k = "(''910GA'', ''gw-slow'', ''910GB'', ''gw-slow'')"
  let ?e = "\<lambda>t. \<lparr>from_id = ''910GA'', from_line = ''gw-slow'', to_id = ''910GB'',
                  to_line = ''gw-slow'', time = t\<rparr>"
  have wi: "well_indexed [?e 10] [?k \<mapsto> 0]"
    by (rule well_indexedI) (simp add: key_of_def split: if_splits)
  have run: "merge_line_edges [?e 10] [?k \<mapsto> 0] [?e 7, ?e 12] = Inr ([?e 7], [?k \<mapsto> 0], 1, 0)"
    by (simp add: merge_line_edges_def merge_edge_def key_of_def)
  from merge_line_edges_keeps_minimum [OF wi, of "[?e 7, ?e 12]"] run
  have "stored_time [?e 7] [?k \<mapsto> 0] ?k
          = observed_min (stored_time [?e 10] [?k \<mapsto> 0] ?k) (times_for ?k [?e 7, ?e 12])"
    by auto
  then have "stored_time [?e 7] [?k \<mapsto> 0] ?k = Some 7"
    by (simp add: stored_time_def observed_min_def times_for_def key_of_def)
  with wi run show ?thesis by simp
qed

lemma load_line_records_no_blank:
  "load_line_records (map Some es) = (es, fold (\<lambda>(i, e) m. m(key_of e \<mapsto> i)) (enumerate 0 es) Map.empty)"
proof -
  have "fold (\<lambda>(idx, line) (records, index).
             case line of
               None \<Rightarrow> (records, index)
             | Some data \<Rightarrow> (records @ [data], index(key_of data \<mapsto> idx)))
          (enumerate n (map Some es)) (rs, m)
        = (rs @ es, fold (\<lambda>(i, e) m. m(key_of e \<mapsto> i)) (enumerate n es) m)" for n rs m
    by (induction es arbitrary: n rs m) simp_all
  from this [of 0 "[]" Map.empty] show ?thesis
    by (simp add: load_line_records_def)
qed

text \<open>
  C1. The claim is about every existing edge collection, and \<^verbatim>\<open>load_line_records\<close> is what
  produces it. A blank line in the file shifts the index entries of all later records, so
  records and index do not agree. With a blank first line, merging a lower weight for the
  only stored key raises \<^verbatim>\<open>IndexError\<close>; with a blank line in the middle, merging a lower
  weight for one key lowers the weight of the next record and leaves the key's own weight
  as it was.
\<close>

theorem merge_line_edges_after_blank_line:
  "(case load_line_records
           [None,
            Some \<lparr>from_id = ''910GA'', from_line = ''gw-slow'', to_id = ''910GB'',
                   to_line = ''gw-slow'', time = 10\<rparr>] of
      (records, index) \<Rightarrow>
        merge_line_edges records index
          [\<lparr>from_id = ''910GA'', from_line = ''gw-slow'', to_id = ''910GB'',
             to_line = ''gw-slow'', time = 7\<rparr>])
     = Inl IndexError \<and>
   (case load_line_records
           [Some \<lparr>from_id = ''910GA'', from_line = ''gw-slow'', to_id = ''910GB'',
                   to_line = ''gw-slow'', time = 10\<rparr>,
            None,
            Some \<lparr>from_id = ''910GB'', from_line = ''gw-slow'', to_id = ''910GC'',
                   to_line = ''gw-slow'', time = 20\<rparr>,
            Some \<lparr>from_id = ''910GC'', from_line = ''gw-slow'', to_id = ''910GD'',
                   to_line = ''gw-slow'', time = 30\<rparr>] of
      (records, index) \<Rightarrow>
        map_sum id (\<lambda>(records, index, updates, inserts). (map time records, updates, inserts))
          (merge_line_edges records index
             [\<lparr>from_id = ''910GB'', from_line = ''gw-slow'', to_id = ''910GC'',
                to_line = ''gw-slow'', time = 5\<rparr>]))
     = Inr ([10, 20, 5], 1, 0)"
  by (simp add: load_line_records_def merge_line_edges_def merge_edge_def key_of_def)

section \<open>Properties of the time normalisation\<close>

lemma int_of_digits_foldl_nonneg:
  "list_all is_digit_char s \<Longrightarrow> 0 \<le> acc \<Longrightarrow>
     0 \<le> foldl (\<lambda>acc c. acc * 10 + (int (of_char c) - 48)) acc s"
  by (induction s arbitrary: acc) (auto simp: is_digit_char_def Let_def)

lemma int_of_digits_nonneg: "list_all is_digit_char s \<Longrightarrow> 0 \<le> int_of_digits s"
  unfolding int_of_digits_def by (rule int_of_digits_foldl_nonneg) simp_all

lemma base_minutes_nonneg_half:
  assumes "base_minutes raw = Some b"
  shows "0 \<le> b \<and> half_integer b"
proof -
  from assms obtain r where r: "raw = Some r" "r \<noteq> []"
    by (auto simp: base_minutes_def split: option.splits if_splits)
  define h where "h \<longleftrightarrow> strip r \<noteq> [] \<and> last (strip r) = CHR ''H''"
  define token where "token = (if h then butlast (strip r) else strip r)"
  have eq: "base_minutes raw =
      (if length token < 3 \<or> \<not> isdigit token then None
       else Some (of_int (int_of_digits (take (length token - 2) token) * 60
                  + int_of_digits (drop (length token - 2) token)) + (if h then 1 / 2 else 0)))"
    unfolding base_minutes_def token_def h_def using r by (simp add: Let_def)
  with assms have
    b: "b = of_int (int_of_digits (take (length token - 2) token) * 60
                  + int_of_digits (drop (length token - 2) token)) + (if h then 1 / 2 else 0)"
    and d: "isdigit token"
    by (auto split: if_splits)
  from d have "list_all is_digit_char (take (length token - 2) token)"
    "list_all is_digit_char (drop (length token - 2) token)"
    by (auto simp: isdigit_def list_all_iff dest: in_set_takeD in_set_dropD)
  then have "0 \<le> int_of_digits (take (length token - 2) token)"
    "0 \<le> int_of_digits (drop (length token - 2) token)"
    by (auto intro: int_of_digits_nonneg)
  then have nn: "0 \<le> b" unfolding b by simp
  define n where "n = int_of_digits (take (length token - 2) token) * 60
                  + int_of_digits (drop (length token - 2) token)"
  have "b = of_int (2 * n + (if h then 1 else 0)) / 2"
    unfolding b n_def by simp
  then have "half_integer b" unfolding half_integer_def by blast
  with nn show ?thesis by simp
qed


lemma half_integer_shift: "half_integer b \<Longrightarrow> half_integer (b + of_int n * 24 * 60)"
proof -
  assume "half_integer b"
  then obtain k :: int where "b = of_int k / 2" by (auto simp: half_integer_def)
  then have "b + of_int n * 24 * 60 = of_int (k + 2 * n * 24 * 60) / 2" by simp
  then show ?thesis unfolding half_integer_def by blast
qed

lemma half_integer_eps:
  assumes "half_integer a" "half_integer b" "\<not> a + 1 / 1000000 < b"
  shows "b \<le> a"
proof -
  from assms obtain ka kb :: int where k: "a = of_int ka / 2" "b = of_int kb / 2"
    by (auto simp: half_integer_def)
  have "kb \<le> ka"
  proof (rule ccontr)
    assume "\<not> kb \<le> ka"
    then have "ka + 1 \<le> kb" by simp
    then have "(of_int ka :: rat) + 1 \<le> of_int kb"
      by (metis of_int_1 of_int_add of_int_le_iff)
    with assms(3) k show False by simp
  qed
  then show ?thesis using k by simp
qed

lemma parse_None: "parse self raw = (None, self') \<Longrightarrow> self' = self"
  by (auto simp: parse_def Let_def split: option.splits if_splits)

lemma parse_Some:
  assumes inv: "normalizer_inv self" and wd: "within_day raw"
    and p: "parse self raw = (Some m, self')"
  shows "normalizer_inv self' \<and>
         (\<exists>l'. last_value self' = Some l' \<and> m \<le> l') \<and>
         (\<forall>l. last_value self = Some l \<longrightarrow> l \<le> m)"
proof -
  from p obtain b where b: "base_minutes raw = Some b"
    by (auto simp: parse_def split: option.splits)
  with wd have b_lt: "b < 24 * 60" by (simp add: within_day_def)
  from base_minutes_nonneg_half [OF b] have b_nn: "0 \<le> b" and b_half: "half_integer b"
    by simp_all
  define off where "off = day_offset self"
  show ?thesis
  proof (cases "last_value self")
    case None
    with p b have m: "m = b + of_int off * 24 * 60"
      and s': "self' = self\<lparr>last_value := Some m\<rparr>"
      by (auto simp: parse_def Let_def off_def)
    have "m < of_int (off + 1) * 24 * 60" using b_lt unfolding m by simp
    moreover have "half_integer m" unfolding m using b_half by (rule half_integer_shift)
    ultimately show ?thesis using None s' by (simp add: normalizer_inv_def off_def)
  next
    case (Some l)
    with inv have l_half: "half_integer l" and l_lt: "l < of_int (off + 1) * 24 * 60"
      by (simp_all add: normalizer_inv_def off_def)
    show ?thesis
    proof (cases "b + of_int off * 24 * 60 + 1 / 1000000 < l")
      case True
      with p b Some have m: "m = b + of_int (off + 1) * 24 * 60"
        by (auto simp: parse_def Let_def off_def)
      then have gt: "l < m" using l_lt b_nn by simp
      with True p b Some m have s': "self' = self\<lparr>day_offset := off + 1, last_value := Some m\<rparr>"
        by (auto simp: parse_def Let_def off_def)
      have "m < of_int (off + 1 + 1) * 24 * 60" using b_lt unfolding m by simp
      moreover have "half_integer m" unfolding m using b_half by (rule half_integer_shift)
      ultimately show ?thesis using Some s' gt by (simp add: normalizer_inv_def)
    next
      case False
      with p b Some have m: "m = b + of_int off * 24 * 60"
        by (auto simp: parse_def Let_def off_def)
      have m_half: "half_integer m" unfolding m using b_half by (rule half_integer_shift)
      have ge: "l \<le> m" using half_integer_eps [OF m_half l_half] False unfolding m by simp
      have m_lt: "m < of_int (off + 1) * 24 * 60" using b_lt unfolding m by simp
      show ?thesis
      proof (cases "l < m")
        case True
        with False p b Some m have s': "self' = self\<lparr>last_value := Some m\<rparr>"
          by (auto simp: parse_def Let_def off_def)
        then show ?thesis using Some ge m_half m_lt by (simp add: normalizer_inv_def off_def)
      next
        case nogrow: False
        with False p b Some m have s': "self' = self"
          by (auto simp: parse_def Let_def off_def)
        then show ?thesis using Some ge nogrow inv by simp
      qed
    qed
  qed
qed

lemma returned_Cons_None [simp]: "returned (None # rs) = returned rs"
  by (simp add: returned_def)

lemma returned_Cons_Some [simp]: "returned (Some v # rs) = v # returned rs"
  by (simp add: returned_def)

lemma returned_Nil [simp]: "returned [] = []"
  by (simp add: returned_def)

lemma parse_seq_sorted:
  assumes "normalizer_inv self" "\<forall>raw \<in> set raws. within_day raw"
  shows "sorted (returned (parse_seq self raws)) \<and>
         (\<forall>v \<in> set (returned (parse_seq self raws)). \<forall>l. last_value self = Some l \<longrightarrow> l \<le> v)"
  using assms
proof (induction raws arbitrary: self)
  case Nil
  then show ?case by simp
next
  case (Cons raw raws)
  obtain r self' where p: "parse self raw = (r, self')" by (cases "parse self raw")
  show ?case
  proof (cases r)
    case None
    with p have "self' = self" by (simp add: parse_None)
    with Cons p None show ?thesis by simp
  next
    case (Some m)
    from Cons.prems have wd: "within_day raw" by simp
    from parse_Some [OF Cons.prems(1) wd p [unfolded Some]] obtain l' where
      inv': "normalizer_inv self'" and l': "last_value self' = Some l'" "m \<le> l'"
      and before: "\<And>l. last_value self = Some l \<Longrightarrow> l \<le> m"
      by blast
    from Cons.IH [OF inv'] Cons.prems(2) have
      srt: "sorted (returned (parse_seq self' raws))"
      and ge: "\<And>v. v \<in> set (returned (parse_seq self' raws)) \<Longrightarrow> l' \<le> v"
      using l' by auto
    have ge_m: "\<And>v. v \<in> set (returned (parse_seq self' raws)) \<Longrightarrow> m \<le> v"
      using ge l'(2) by force
    have "l \<le> v" if "v \<in> set (returned (parse_seq self' raws))" "last_value self = Some l"
      for v l
      using ge_m [OF that(1)] before [OF that(2)] by simp
    with srt before ge_m show ?thesis using p Some by auto
  qed
qed

lemma new_normalizer_inv: "normalizer_inv new_normalizer"
  by (simp add: normalizer_inv_def new_normalizer_def)

text \<open>
  C2, as stated: the values returned for any sequence of tokens never decrease. It fails for
  a token of 24 hours or more: \<open>9999\<close> is 6039 minutes, and \<open>0000\<close> after it is moved by
  one day only, to 1440.
\<close>

theorem parse_monotone_counterexample:
  "\<not> sorted (returned (parse_seq new_normalizer [Some ''9999'', Some ''0000'']))"
  by code_simp

text \<open>
  C2, amended: for every sequence of tokens within a day, the values that one instance
  returns never decrease; the tokens \<open>2350\<close> then \<open>0010\<close> return 1430 and then 1450, which
  is 1440 more than the same-day value 10.
\<close>

theorem parse_monotone_within_day:
  assumes "\<forall>raw \<in> set raws. within_day raw"
  shows "sorted (returned (parse_seq new_normalizer raws)) \<and>
         base_minutes (Some ''0010'') = Some 10 \<and>
         parse_seq new_normalizer [Some ''2350'', Some ''0010''] = [Some 1430, Some (10 + 1440)]"
proof -
  have "sorted (returned (parse_seq new_normalizer raws))"
    using parse_seq_sorted [OF new_normalizer_inv assms] by simp
  moreover have "base_minutes (Some ''0010'') = Some 10"
    by code_simp
  moreover have
    "parse_seq new_normalizer [Some ''2350'', Some ''0010''] = [Some 1430, Some (10 + 1440)]"
    by code_simp
  ultimately show ?thesis by simp
qed

theorem parse_monotone_within_day_witness:
  "within_day (Some ''2350'') \<and> within_day (Some ''0010'') \<and> within_day (Some ''0015H'') \<and>
   returned (parse_seq new_normalizer [Some ''2350'', Some ''0010'', Some ''0015H''])
     = [1430, 1450, 1455 + 1 / 2] \<and>
   sorted (returned (parse_seq new_normalizer [Some ''2350'', Some ''0010'', Some ''0015H'']))"
proof -
  have w: "within_day (Some ''2350'')" "within_day (Some ''0010'')" "within_day (Some ''0015H'')"
    by code_simp+
  then have "\<forall>raw \<in> set [Some ''2350'', Some ''0010'', Some ''0015H'']. within_day raw"
    by simp
  from parse_monotone_within_day [OF this]
  have "sorted (returned (parse_seq new_normalizer [Some ''2350'', Some ''0010'', Some ''0015H'']))"
    by simp
  moreover have "returned (parse_seq new_normalizer [Some ''2350'', Some ''0010'', Some ''0015H''])
     = [1430, 1450, 1455 + 1 / 2]"
    by code_simp
  ultimately show ?thesis using w by simp
qed

section \<open>Properties of the stop ratio\<close>





section \<open>Properties of the station merge\<close>

lemma set_update_subset: "set (AList.update k v al) \<subseteq> insert (k, v) (set al)"
  by (induction al) auto

lemma keyedI: "(\<And>k r. (k, r) \<in> set records \<Longrightarrow> r_station_id r = Some k) \<Longrightarrow> keyed records"
  unfolding keyed_def by blast

lemma keyedD: "keyed records \<Longrightarrow> (k, r) \<in> set records \<Longrightarrow> r_station_id r = Some k"
  unfolding keyed_def by blast

lemma ground_onlyI:
  "(\<And>k r. (k, r) \<in> set records \<Longrightarrow> \<not> startswith k ''HUB'') \<Longrightarrow> ground_only records"
  unfolding ground_only_def by blast

lemma ground_onlyD:
  "ground_only records \<Longrightarrow> (k, r) \<in> set records \<Longrightarrow> \<not> startswith k ''HUB''"
  unfolding ground_only_def by blast

lemma keyed_update:
  assumes "keyed records" "r_station_id r = Some k"
  shows "keyed (AList.update k r records)"
proof (rule keyedI)
  fix k' r'
  assume "(k', r') \<in> set (AList.update k r records)"
  with set_update_subset [of k r records] have "(k', r') = (k, r) \<or> (k', r') \<in> set records"
    by blast
  with assms show "r_station_id r' = Some k'" by (auto dest: keyedD)
qed

lemma ground_only_update:
  assumes "ground_only records" "\<not> startswith k ''HUB''"
  shows "ground_only (AList.update k r records)"
proof (rule ground_onlyI)
  fix k' r'
  assume "(k', r') \<in> set (AList.update k r records)"
  with set_update_subset [of k r records] have "(k', r') = (k, r) \<or> (k', r') \<in> set records"
    by blast
  with assms show "\<not> startswith k' ''HUB''" by (auto dest: ground_onlyD)
qed

lemma keyed_Nil: "keyed []"
  by (simp add: keyed_def)

lemma keyed_load_fold:
  "keyed records \<Longrightarrow>
   keyed (fold (\<lambda>data records.
             case r_station_id data of
               None \<Rightarrow> records
             | Some station_id \<Rightarrow>
                 if station_id = [] then records else AList.update station_id data records)
          file_lines records)"
  by (induction file_lines arbitrary: records) (auto split: option.splits intro: keyed_update)

lemma keyed_load: "keyed (load_station_records file_lines)"
  unfolding load_station_records_def by (rule keyed_load_fold [OF keyed_Nil])

lemma merge_station_shape:
  "\<exists>r. merge_station (station_id, meta) existing = AList.update station_id r existing \<and>
       r_station_id r = r_station_id (case map_of existing station_id of
                                        None \<Rightarrow> fresh_record station_id
                                      | Some r \<Rightarrow> r)"
  unfolding merge_station_def Let_def prod.case
  by (rule exI, rule conjI, rule refl) simp

lemma keyed_merge_station:
  assumes "keyed existing"
  shows "keyed (merge_station item existing)"
proof -
  obtain station_id meta where item: "item = (station_id, meta)" by (cases item)
  from merge_station_shape [of station_id meta existing] obtain r where
    r: "merge_station (station_id, meta) existing = AList.update station_id r existing"
    "r_station_id r = r_station_id (case map_of existing station_id of
                                        None \<Rightarrow> fresh_record station_id
                                      | Some r \<Rightarrow> r)"
    by blast
  have "r_station_id r = Some station_id"
    using assms unfolding r(2)
    by (auto simp: fresh_record_def split: option.splits dest: map_of_SomeD keyedD)
  with assms show ?thesis unfolding item r(1) by (rule keyed_update)
qed

lemma keyed_merge: "keyed existing \<Longrightarrow> keyed (merge_station_metadata existing national_stations)"
  unfolding merge_station_metadata_def
  by (induction national_stations arbitrary: existing) (auto intro: keyed_merge_station)

lemma fold_delete: "fold AList.delete ks al = filter (\<lambda>(k, v). k \<notin> set ks) al"
proof (induction ks arbitrary: al)
  case Nil
  then show ?case by simp
next
  case (Cons k ks)
  have "AList.delete k al = filter (\<lambda>(k', v). k' \<noteq> k) al"
    by (induction al) auto
  then show ?case by (auto simp: Cons.IH intro: filter_cong)
qed

lemma filter_ground_nodes_eq:
  "filter_ground_nodes records = filter (\<lambda>(k, r). \<not> startswith k ''HUB'') records"
  unfolding filter_ground_nodes_def Let_def fold_delete
  by (rule filter_cong) force+

lemma ground_only_filter: "ground_only (filter_ground_nodes records)"
  by (auto simp: filter_ground_nodes_eq ground_only_def)

lemma keyed_filter: "keyed records \<Longrightarrow> keyed (filter_ground_nodes records)"
  by (auto simp: filter_ground_nodes_eq keyed_def)

lemma keys_update_present:
  "k \<in> fst ` set records \<Longrightarrow> fst ` set (AList.update k v records) = fst ` set records"
  by (auto simp: dom_update)

lemma clean_rename:
  assumes "clean records" "r_station_id r = Some k" "\<not> startswith k ''HUB''"
  shows "clean (AList.update k (r\<lparr>r_station_name := x\<rparr>) records)"
  using assms by (simp add: clean_def keyed_update ground_only_update)

lemma clean_member:
  assumes "clean records" "(k, r) \<in> set records"
  shows "r_station_id r = Some k \<and> \<not> startswith k ''HUB''"
  using assms by (auto simp: clean_def dest: keyedD ground_onlyD)

lemma groupedD:
  "grouped records name_groups \<Longrightarrow> (key, station_ids) \<in> set name_groups
     \<Longrightarrow> set station_ids \<subseteq> fst ` set records"
  unfolding grouped_def by blast

lemma group_step_inv:
  assumes "clean records" "grouped records name_groups"
    and "r_station_id r = Some k" "\<not> startswith k ''HUB''" "k \<in> fst ` set records"
  shows "\<exists>records' name_groups'.
           group_step (k, r) (records, name_groups) = (records', name_groups') \<and>
           clean records' \<and> grouped records' name_groups' \<and>
           fst ` set records' = fst ` set records"
proof -
  define nm where "nm = or_str (r_station_name r) k"
  define records' where "records' = AList.update k (r\<lparr>r_station_name := Some nm\<rparr>) records"
  define old where "old = (case map_of name_groups (casefold nm) of None \<Rightarrow> [] | Some ids \<Rightarrow> ids)"
  define name_groups' where "name_groups' = AList.update (casefold nm) (old @ [k]) name_groups"
  have step: "group_step (k, r) (records, name_groups) = (records', name_groups')"
    by (simp add: group_step_def Let_def nm_def records'_def old_def name_groups'_def)
  note k = assms(5)
  have keys: "fst ` set records' = fst ` set records"
    unfolding records'_def using k by (rule keys_update_present)
  have cl: "clean records'"
    unfolding records'_def using assms(1,3,4) by (rule clean_rename)
  have old: "set old \<subseteq> fst ` set records"
  proof (cases "map_of name_groups (casefold nm)")
    case None
    then show ?thesis by (simp add: old_def)
  next
    case (Some ids)
    then have "(casefold nm, ids) \<in> set name_groups" by (rule map_of_SomeD)
    with assms(2) have "set ids \<subseteq> fst ` set records" by (rule groupedD)
    with Some show ?thesis by (simp add: old_def)
  qed
  have "grouped records' name_groups'"
    unfolding grouped_def
  proof (intro ballI, clarify)
    fix key ids x
    assume "(key, ids) \<in> set name_groups'" "x \<in> set ids"
    with set_update_subset [of "casefold nm" "old @ [k]" name_groups]
    have "(key, ids) = (casefold nm, old @ [k]) \<or> (key, ids) \<in> set name_groups"
      unfolding name_groups'_def by blast
    then have "set ids \<subseteq> fst ` set records"
    proof
      assume "(key, ids) = (casefold nm, old @ [k])"
      then show ?thesis using old k by simp
    next
      assume "(key, ids) \<in> set name_groups"
      with assms(2) show ?thesis by (rule groupedD)
    qed
    with \<open>x \<in> set ids\<close> show "x \<in> fst ` set records'"
      unfolding keys by blast
  qed
  with step cl keys show ?thesis by blast
qed

lemma fold_group_step_inv:
  assumes "clean records" "grouped records name_groups"
    and "\<forall>(k, r) \<in> set items. r_station_id r = Some k \<and> \<not> startswith k ''HUB'' \<and>
           k \<in> fst ` set records"
  shows "\<exists>records' name_groups'.
           fold group_step items (records, name_groups) = (records', name_groups') \<and>
           clean records' \<and> grouped records' name_groups'"
  using assms
proof (induction items arbitrary: records name_groups)
  case Nil
  then show ?case by simp
next
  case (Cons item items)
  obtain k r where item: "item = (k, r)" by (cases item)
  with Cons.prems(3) have kr: "r_station_id r = Some k" "\<not> startswith k ''HUB''"
    "k \<in> fst ` set records"
    by auto
  from group_step_inv [OF Cons.prems(1,2) kr] obtain records1 groups1 where
    step: "group_step (k, r) (records, name_groups) = (records1, groups1)"
    and inv: "clean records1" "grouped records1 groups1"
    and keys: "fst ` set records1 = fst ` set records"
    by blast
  have "\<forall>(k, r) \<in> set items. r_station_id r = Some k \<and> \<not> startswith k ''HUB'' \<and>
           k \<in> fst ` set records1"
    using Cons.prems(3) unfolding keys by simp
  from Cons.IH [OF inv this] show ?case
    by (simp add: item step)
qed

lemma rename_step_inv:
  assumes "clean records" "k \<in> fst ` set records"
  shows "\<exists>records' seen'.
           rename_step (idx, k) (records, seen) = Inr (records', seen') \<and>
           clean records' \<and> fst ` set records' = fst ` set records"
proof -
  from assms(2) obtain r where r: "map_of records k = Some r"
    by (metis map_of_eq_None_iff not_Some_eq)
  then have "(k, r) \<in> set records" by (rule map_of_SomeD)
  with assms(1) have kr: "r_station_id r = Some k" "\<not> startswith k ''HUB''"
    by (auto dest: clean_member)
  define base where "base = or_str (r_station_name r) k"
  define new_name where "new_name =
     (if idx = 0 then base
      else base @ '' ['' @ or_str (py_or (r_code r) (r_tiploc r)) k @ '']'')"
  define candidate where "candidate = find_candidate new_name seen new_name 1"
  have "rename_step (idx, k) (records, seen) =
      Inr (AList.update k (r\<lparr>r_station_name := Some candidate\<rparr>) records,
           casefold candidate # seen)"
    by (simp add: rename_step_def r Let_def base_def new_name_def candidate_def)
  moreover have "clean (AList.update k (r\<lparr>r_station_name := Some candidate\<rparr>) records)"
    using assms(1) kr by (rule clean_rename)
  moreover have "fst ` set (AList.update k (r\<lparr>r_station_name := Some candidate\<rparr>) records)
      = fst ` set records"
    using assms(2) by (rule keys_update_present)
  ultimately show ?thesis by blast
qed

lemma fold_rename_step_inv:
  assumes "clean records" "snd ` set items \<subseteq> fst ` set records"
  shows "\<exists>records' seen'.
           fold_err rename_step items (records, seen) = Inr (records', seen') \<and>
           clean records' \<and> fst ` set records' = fst ` set records"
  using assms
proof (induction items arbitrary: records seen)
  case Nil
  then show ?case by simp
next
  case (Cons item items)
  obtain idx k where item: "item = (idx, k)" by (cases item)
  with Cons.prems(2) have k: "k \<in> fst ` set records" by simp
  from rename_step_inv [OF Cons.prems(1) k, of idx seen] obtain records1 seen1 where
    step: "rename_step (idx, k) (records, seen) = Inr (records1, seen1)"
    and inv: "clean records1" and keys: "fst ` set records1 = fst ` set records"
    by blast
  have "snd ` set items \<subseteq> fst ` set records1"
    using Cons.prems(2) unfolding keys by simp
  from Cons.IH [OF inv this, of seen1] show ?case
    by (auto simp: item step keys)
qed

lemma rename_group_inv:
  assumes "clean records" "set station_ids \<subseteq> fst ` set records"
  shows "\<exists>records'.
           rename_group station_ids records = Inr records' \<and>
           clean records' \<and> fst ` set records' = fst ` set records"
proof (cases "length station_ids \<le> 1")
  case True
  with assms(1) show ?thesis by (simp add: rename_group_def)
next
  case False
  have "snd ` set (enumerate 0 (sort station_ids)) = set station_ids"
    by (metis map_snd_enumerate set_map set_sort)
  then have "snd ` set (enumerate 0 (sort station_ids)) \<subseteq> fst ` set records"
    using assms(2) by simp
  from fold_rename_step_inv [OF assms(1) this, of "[]"] False show ?thesis
    by (auto simp: rename_group_def)
qed

lemma fold_rename_group_inv:
  assumes "clean records" "\<forall>station_ids \<in> set groups. set station_ids \<subseteq> fst ` set records"
  shows "\<exists>records'.
           fold_err rename_group groups records = Inr records' \<and>
           clean records' \<and> fst ` set records' = fst ` set records"
  using assms
proof (induction groups arbitrary: records)
  case Nil
  then show ?case by simp
next
  case (Cons station_ids groups)
  then have "set station_ids \<subseteq> fst ` set records" by simp
  from rename_group_inv [OF Cons.prems(1) this] obtain records1 where
    step: "rename_group station_ids records = Inr records1"
    and inv: "clean records1" and keys: "fst ` set records1 = fst ` set records"
    by blast
  have "\<forall>station_ids \<in> set groups. set station_ids \<subseteq> fst ` set records1"
    using Cons.prems(2) unfolding keys by simp
  from Cons.IH [OF inv this] show ?case
    by (auto simp: step keys)
qed

lemma ensure_unique_station_names_inv:
  assumes "clean records"
  shows "\<exists>records'. ensure_unique_station_names records = Inr records' \<and> clean records'"
proof -
  have "grouped records []" by (simp add: grouped_def)
  moreover have "\<forall>(k, r) \<in> set records. r_station_id r = Some k \<and> \<not> startswith k ''HUB'' \<and>
           k \<in> fst ` set records"
    using assms by (force dest: clean_member)
  ultimately obtain records1 groups where
    g: "fold group_step records (records, []) = (records1, groups)"
    and inv: "clean records1" "grouped records1 groups"
    using fold_group_step_inv [OF assms, of "[]" records] by blast
  have "\<forall>station_ids \<in> set (map snd groups). set station_ids \<subseteq> fst ` set records1"
  proof
    fix station_ids
    assume "station_ids \<in> set (map snd groups)"
    then obtain key where "(key, station_ids) \<in> set groups" by auto
    with inv(2) show "set station_ids \<subseteq> fst ` set records1" by (rule groupedD)
  qed
  from fold_rename_group_inv [OF inv(1) this] show ?thesis
    by (auto simp: ensure_unique_station_names_def g)
qed

lemma write_station_records_clean:
  assumes "clean records" "r \<in> set (write_station_records records)"
  shows "\<exists>station_id. r_station_id r = Some station_id \<and> \<not> startswith station_id ''HUB''"
proof -
  from assms(2) obtain k where "map_of records k = Some r"
    by (auto simp: write_station_records_def List.map_filter_def)
  then have "(k, r) \<in> set records" by (rule map_of_SomeD)
  with assms(1) show ?thesis by (blast dest: clean_member)
qed

lemma merge_station_keeps_populated:
  assumes "map_of existing station_id = Some r"
  shows "\<exists>r'. map_of (merge_station (station_id, meta) existing) station_id = Some r' \<and>
           (truthy (r_station_name r) \<longrightarrow> truthy (r_station_name r')) \<and>
           (truthy (r_code r) \<longrightarrow> truthy (r_code r')) \<and>
           (truthy (r_atco_code r) \<longrightarrow> truthy (r_atco_code r')) \<and>
           (truthy (r_naptan_code r) \<longrightarrow> truthy (r_naptan_code r')) \<and>
           (truthy (r_locality r) \<longrightarrow> truthy (r_locality r')) \<and>
           r_latitude r' = latitude meta \<and> r_longitude r' = longitude meta"
  using assms
  by (simp add: merge_station_def Let_def update_conv' truthy_def py_or_def or_str_def
      split: option.splits)

text \<open>
  C3. The claim holds for the name, the code and the three optional codes, and fails for the
  coordinates: \<^verbatim>\<open>record["latitude"] = meta.latitude\<close> stores the new value also when it
  is \<^verbatim>\<open>None\<close>. A station with coordinates, merged with metadata without coordinates,
  loses them.
\<close>

theorem merge_station_metadata_drops_coordinates:
  "map_of
     (merge_station_metadata
        [(''910GPADTON'',
          \<lparr>r_station_id = Some ''910GPADTON'', r_station_name = Some ''Paddington'',
             r_code = Some ''PAD'', r_latitude = Some (5152 / 100),
             r_longitude = Some (- 18 / 100), r_tiploc = None, r_atco_code = None,
             r_naptan_code = None, r_locality = None\<rparr>)]
        [(''910GPADTON'',
          \<lparr>tiploc = ''PADTON'', name = Some ''London Paddington'', three_alpha = Some ''PAD'',
             atco_code = None, naptan_code = None, latitude = None, longitude = None,
             locality_name = None\<rparr>)])
     ''910GPADTON''
   = Some \<lparr>r_station_id = Some ''910GPADTON'', r_station_name = Some ''London Paddington'',
             r_code = Some ''PAD'', r_latitude = None, r_longitude = None,
             r_tiploc = Some ''PADTON'', r_atco_code = None, r_naptan_code = None,
             r_locality = None\<rparr>"
  by (simp add: merge_station_metadata_def merge_station_def Let_def truthy_def py_or_def
      or_str_def)

text \<open>
  C9. For every content of the station file and every set of national stations, the station
  part of \<^verbatim>\<open>main\<close> runs to the end, and every record it writes carries an identifier that
  does not begin with \<open>HUB\<close>.
\<close>

theorem main_stations_no_hub:
  "\<exists>catalogue.
      main_stations file_lines national_stations = Inr catalogue \<and>
      (\<forall>r \<in> set catalogue.
         \<exists>station_id. r_station_id r = Some station_id \<and> \<not> startswith station_id ''HUB'')"
proof -
  define records where
    "records = filter_ground_nodes
       (merge_station_metadata (load_station_records file_lines) national_stations)"
  have "clean records"
    unfolding records_def clean_def
    by (simp add: keyed_filter keyed_merge keyed_load ground_only_filter)
  from ensure_unique_station_names_inv [OF this] obtain records' where
    "ensure_unique_station_names records = Inr records'" "clean records'"
    by blast
  then show ?thesis
    unfolding main_stations_def Let_def records_def [symmetric]
    by (auto dest: write_station_records_clean)
qed

theorem main_stations_no_hub_witness:
  "main_stations
     [(fresh_record ''940GVIC'')\<lparr>r_station_name := Some ''Victoria''\<rparr>,
      (fresh_record ''HUBVIC'')\<lparr>r_station_name := Some ''Victoria''\<rparr>,
      (fresh_record ''910GVIC'')\<lparr>r_station_name := Some ''Victoria''\<rparr>]
     [(''910GVICTRIC'',
       \<lparr>tiploc = ''VICTRIC'', name = Some ''VICTORIA'', three_alpha = Some ''VIC'',
          atco_code = None, naptan_code = None, latitude = None, longitude = None,
          locality_name = None\<rparr>)]
   = Inr [(fresh_record ''910GVIC'')\<lparr>r_station_name := Some ''Victoria''\<rparr>,
          (fresh_record ''910GVICTRIC'')\<lparr>r_station_name := Some ''VICTORIA [VIC]'',
             r_code := Some ''VIC'', r_tiploc := Some ''VICTRIC''\<rparr>,
          (fresh_record ''940GVIC'')\<lparr>r_station_name := Some ''Victoria [940GVIC]''\<rparr>] \<and>
   \<not> startswith ''910GVIC'' ''HUB'' \<and> \<not> startswith ''910GVICTRIC'' ''HUB'' \<and>
   \<not> startswith ''940GVIC'' ''HUB''"
proof -
  let ?file = "[(fresh_record ''940GVIC'')\<lparr>r_station_name := Some ''Victoria''\<rparr>,
      (fresh_record ''HUBVIC'')\<lparr>r_station_name := Some ''Victoria''\<rparr>,
      (fresh_record ''910GVIC'')\<lparr>r_station_name := Some ''Victoria''\<rparr>]"
  let ?national = "[(''910GVICTRIC'',
       \<lparr>tiploc = ''VICTRIC'', name = Some ''VICTORIA'', three_alpha = Some ''VIC'',
          atco_code = None, naptan_code = None, latitude = None, longitude = None,
          locality_name = None\<rparr>)]"
  let ?out = "[(fresh_record ''910GVIC'')\<lparr>r_station_name := Some ''Victoria''\<rparr>,
          (fresh_record ''910GVICTRIC'')\<lparr>r_station_name := Some ''VICTORIA [VIC]'',
             r_code := Some ''VIC'', r_tiploc := Some ''VICTRIC''\<rparr>,
          (fresh_record ''940GVIC'')\<lparr>r_station_name := Some ''Victoria [940GVIC]''\<rparr>]"
  have run: "main_stations ?file ?national = Inr ?out"
    by code_simp
  from main_stations_no_hub [of ?file ?national] obtain catalogue where
    "main_stations ?file ?national = Inr catalogue"
    and hub: "\<forall>r \<in> set catalogue.
         \<exists>station_id. r_station_id r = Some station_id \<and> \<not> startswith station_id ''HUB''"
    by blast
  with run have "catalogue = ?out" by simp
  with hub have "\<not> startswith ''910GVIC'' ''HUB''" "\<not> startswith ''910GVICTRIC'' ''HUB''"
    "\<not> startswith ''940GVIC'' ''HUB''"
    by (simp_all add: fresh_record_def)
  with run show ?thesis by simp
qed

section \<open>Properties of the shortest paths\<close>

lemma emit_member:
  assumes "r \<in> set (emit start distances end_node)"
  shows "distances end_node = Some (path_time r) \<and> start \<noteq> end_node \<and>
         is_ground_node end_node \<and> from_station r = fst start \<and> to_station r = fst end_node"
proof (cases "distances end_node")
  case None
  with assms show ?thesis by (simp add: emit_def)
next
  case (Some d)
  show ?thesis
  proof (cases "start \<noteq> end_node \<and> is_ground_node end_node")
    case True
    with assms Some show ?thesis by (simp add: emit_def)
  next
    case False
    with assms Some show ?thesis by (simp add: emit_def)
  qed
qed

lemma paths_from_member:
  assumes "r \<in> set (paths_from graph nodes start)"
  shows "is_ground_node start \<and>
         (\<exists>end_node \<in> set nodes. r \<in> set (emit start (dijkstra graph start) end_node))"
proof (cases "is_ground_node start")
  case True
  with assms have "r \<in> set (concat (map (emit start (dijkstra graph start)) nodes))"
    by (simp add: paths_from_def)
  then obtain end_node where "end_node \<in> set nodes"
    "r \<in> set (emit start (dijkstra graph start) end_node)"
    unfolding set_concat set_map by blast
  with True show ?thesis by blast
next
  case False
  with assms show ?thesis by (simp add: paths_from_def)
qed

lemma ground_nodes_differ:
  assumes "is_ground_node a" "is_ground_node b" "a \<noteq> b"
  shows "fst a \<noteq> fst b"
proof
  assume "fst a = fst b"
  moreover from assms(1,2) have "snd a = snd b" by (simp add: is_ground_node_def)
  ultimately have "a = b" by (rule prod_eqI)
  with assms(3) show False by contradiction
qed

text \<open>
  C4. On the graph of the stations A and B with the edges GROUND A to HUB A (2), HUB A to
  LINE1 at A (3), LINE1 at A to LINE1 at B (10), LINE1 at B to HUB B (2) and HUB B to
  GROUND B (2), \<^verbatim>\<open>dijkstra\<close> from GROUND A gives GROUND B the distance 19.
\<close>

theorem dijkstra_ground_a_to_ground_b:
  "dijkstra
     (build_graph
        [\<lparr>l_from_id = ''A'', l_from_line = ''GROUND'', l_to_id = ''A'', l_to_line = ''HUB'',
         l_time = 2\<rparr>,
      \<lparr>l_from_id = ''A'', l_from_line = ''HUB'', l_to_id = ''A'', l_to_line = ''LINE1'',
         l_time = 3\<rparr>,
      \<lparr>l_from_id = ''A'', l_from_line = ''LINE1'', l_to_id = ''B'', l_to_line = ''LINE1'',
         l_time = 10\<rparr>,
      \<lparr>l_from_id = ''B'', l_from_line = ''LINE1'', l_to_id = ''B'', l_to_line = ''HUB'',
         l_time = 2\<rparr>,
      \<lparr>l_from_id = ''B'', l_from_line = ''HUB'', l_to_id = ''B'', l_to_line = ''GROUND'',
         l_time = 2\<rparr>])
     (''A'', ''GROUND'') (''B'', ''GROUND'') = Some 19"
  by code_simp

text \<open>
  C5. Every record that \<^verbatim>\<open>main\<close> writes comes from a GROUND start node and a GROUND end
  node of the graph, carries their two station identifiers, which differ, and the distance
  that \<^verbatim>\<open>dijkstra\<close> found from the one to the other, which is not infinite.
\<close>

theorem main_shortest_paths_ground_pairs:
  "\<forall>r \<in> set (main_shortest_paths file_lines).
     \<exists>start end_node.
        start \<in> set (all_nodes (build_graph file_lines)) \<and>
        end_node \<in> set (all_nodes (build_graph file_lines)) \<and>
        is_ground_node start \<and> is_ground_node end_node \<and>
        from_station r = fst start \<and> to_station r = fst end_node \<and>
        from_station r \<noteq> to_station r \<and>
        dijkstra (build_graph file_lines) start end_node = Some (path_time r)"
proof
  fix r
  assume "r \<in> set (main_shortest_paths file_lines)"
  let ?g = "build_graph file_lines"
  let ?nodes = "all_nodes ?g"
  from \<open>r \<in> set (main_shortest_paths file_lines)\<close>
  have "r \<in> set (concat (map (paths_from ?g ?nodes) ?nodes))"
    by (simp add: main_shortest_paths_def Let_def)
  then obtain start where start: "start \<in> set ?nodes" "r \<in> set (paths_from ?g ?nodes start)"
    unfolding set_concat set_map by blast
  from paths_from_member [OF start(2)] obtain end_node where
    gs: "is_ground_node start" and e: "end_node \<in> set ?nodes"
    and r: "r \<in> set (emit start (dijkstra ?g start) end_node)"
    by blast
  from emit_member [OF r] have
    d: "dijkstra ?g start end_node = Some (path_time r)" and ne: "start \<noteq> end_node"
    and ge: "is_ground_node end_node"
    and f: "from_station r = fst start" and t: "to_station r = fst end_node"
    by simp_all
  from ground_nodes_differ [OF gs ge ne] have "from_station r \<noteq> to_station r"
    unfolding f t .
  with start(1) e gs ge f t d
  show "\<exists>start end_node.
        start \<in> set (all_nodes (build_graph file_lines)) \<and>
        end_node \<in> set (all_nodes (build_graph file_lines)) \<and>
        is_ground_node start \<and> is_ground_node end_node \<and>
        from_station r = fst start \<and> to_station r = fst end_node \<and>
        from_station r \<noteq> to_station r \<and>
        dijkstra (build_graph file_lines) start end_node = Some (path_time r)"
    by blast
qed

theorem main_shortest_paths_ground_pairs_witness:
  "main_shortest_paths
     [\<lparr>l_from_id = ''A'', l_from_line = ''GROUND'', l_to_id = ''A'', l_to_line = ''HUB'',
         l_time = 2\<rparr>,
      \<lparr>l_from_id = ''A'', l_from_line = ''HUB'', l_to_id = ''A'', l_to_line = ''LINE1'',
         l_time = 3\<rparr>,
      \<lparr>l_from_id = ''A'', l_from_line = ''LINE1'', l_to_id = ''B'', l_to_line = ''LINE1'',
         l_time = 10\<rparr>,
      \<lparr>l_from_id = ''B'', l_from_line = ''LINE1'', l_to_id = ''B'', l_to_line = ''HUB'',
         l_time = 2\<rparr>,
      \<lparr>l_from_id = ''B'', l_from_line = ''HUB'', l_to_id = ''B'', l_to_line = ''GROUND'',
         l_time = 2\<rparr>]
   = [\<lparr>from_station = ''A'', to_station = ''B'', path_time = 19\<rparr>] \<and>
   (\<exists>start end_node.
      is_ground_node start \<and> is_ground_node end_node \<and>
      fst start = ''A'' \<and> fst end_node = ''B'' \<and>
      dijkstra
        (build_graph
           [\<lparr>l_from_id = ''A'', l_from_line = ''GROUND'', l_to_id = ''A'', l_to_line = ''HUB'',
         l_time = 2\<rparr>,
      \<lparr>l_from_id = ''A'', l_from_line = ''HUB'', l_to_id = ''A'', l_to_line = ''LINE1'',
         l_time = 3\<rparr>,
      \<lparr>l_from_id = ''A'', l_from_line = ''LINE1'', l_to_id = ''B'', l_to_line = ''LINE1'',
         l_time = 10\<rparr>,
      \<lparr>l_from_id = ''B'', l_from_line = ''LINE1'', l_to_id = ''B'', l_to_line = ''HUB'',
         l_time = 2\<rparr>,
      \<lparr>l_from_id = ''B'', l_from_line = ''HUB'', l_to_id = ''B'', l_to_line = ''GROUND'',
         l_time = 2\<rparr>])
        start end_node = Some 19)"
proof -
  let ?lines = "[\<lparr>l_from_id = ''A'', l_from_line = ''GROUND'', l_to_id = ''A'', l_to_line = ''HUB'',
         l_time = 2\<rparr>,
      \<lparr>l_from_id = ''A'', l_from_line = ''HUB'', l_to_id = ''A'', l_to_line = ''LINE1'',
         l_time = 3\<rparr>,
      \<lparr>l_from_id = ''A'', l_from_line = ''LINE1'', l_to_id = ''B'', l_to_line = ''LINE1'',
         l_time = 10\<rparr>,
      \<lparr>l_from_id = ''B'', l_from_line = ''LINE1'', l_to_id = ''B'', l_to_line = ''HUB'',
         l_time = 2\<rparr>,
      \<lparr>l_from_id = ''B'', l_from_line = ''HUB'', l_to_id = ''B'', l_to_line = ''GROUND'',
         l_time = 2\<rparr>]"
  let ?r = "\<lparr>from_station = ''A'', to_station = ''B'', path_time = 19\<rparr>"
  have run: "main_shortest_paths ?lines = [?r]"
    by code_simp
  then have "?r \<in> set (main_shortest_paths ?lines)"
    by simp
  with main_shortest_paths_ground_pairs [of ?lines] obtain start end_node where
    "is_ground_node start" "is_ground_node end_node"
    "from_station ?r = fst start" "to_station ?r = fst end_node"
    "dijkstra (build_graph ?lines) start end_node = Some (path_time ?r)"
    by blast
  then have "is_ground_node start \<and> is_ground_node end_node \<and>
      fst start = ''A'' \<and> fst end_node = ''B'' \<and>
      dijkstra (build_graph ?lines) start end_node = Some 19"
    by simp
  then have "\<exists>start end_node.
      is_ground_node start \<and> is_ground_node end_node \<and>
      fst start = ''A'' \<and> fst end_node = ''B'' \<and>
      dijkstra (build_graph ?lines) start end_node = Some 19"
    by blast
  with run show ?thesis by simp
qed

end
